theory Spec2Isabelle
  imports Main "HOL-Library.Multiset"
begin

section \<open>Strings, paths and decimal formatting\<close>

text \<open>
  Python raises exceptions; the model returns them as values. One type collects the
  exceptions that the modelled code paths can raise.
\<close>

datatype error =
    IsADirectoryError
  | FileNotFoundError
  | KeyError
  | AttributeError
  | UnicodeDecodeError

text \<open>
  A Python \<open>str\<close> is a sequence of Unicode code points. \<open>lit\<close> writes the ASCII text
  of the sources as such a sequence and \<open>ch\<close> one ASCII character. The contents of
  files are bytes and stay of type \<open>string\<close>.

  What Python takes from the Unicode character database is a parameter of the
  functions that use it: \<open>lower\<close> is \<open>str.lower\<close>, \<open>space\<close> tells the white space
  characters (\<open>\s\<close>), and \<open>decimal\<close> gives the value of a decimal digit (the characters
  \<open>\d\<close> matches and \<open>int\<close> reads) and \<open>None\<close> for any other character.
\<close>

type_synonym codepoint = nat

type_synonym str = "codepoint list"

abbreviation lit :: "string \<Rightarrow> str" where
  "lit text \<equiv> map of_char text"

abbreviation ch :: "char \<Rightarrow> codepoint" where
  "ch c \<equiv> of_char c"

text \<open>
  Paths are POSIX paths. \<open>os.path.basename p\<close> is \<open>p[p.rfind('/') + 1:]\<close>, the part
  after the last slash; \<open>os.path.join a b\<close> with two arguments returns \<open>b\<close> when \<open>b\<close>
  is absolute and otherwise puts exactly one slash between the two parts.
\<close>

definition basename :: "str \<Rightarrow> str" where
  "basename p = rev (takeWhile (\<lambda>c. c \<noteq> ch (CHR ''/'')) (rev p))"

definition join :: "str \<Rightarrow> str \<Rightarrow> str" where
  "join a b =
     (if b \<noteq> [] \<and> hd b = ch (CHR ''/'') then b
      else if a = [] \<or> last a = ch (CHR ''/'') then a @ b
      else a @ ch (CHR ''/'') # b)"

definition endswith :: "str \<Rightarrow> str \<Rightarrow> bool" where
  "endswith s suffix =
     (length suffix \<le> length s \<and> drop (length s - length suffix) s = suffix)"

text \<open>
  \<open>dec\<close> is \<open>str\<close> on a non-negative integer: its digits are the ASCII digits, code
  points 48 to 57. The format specification \<open>04d\<close> pads with zeros to width four, the
  sign counting towards the width.
\<close>

function dec :: "nat \<Rightarrow> str" where
  "dec n = (if n < 10 then [48 + n] else dec (n div 10) @ [48 + n mod 10])"
  by pat_completeness auto
termination
  by (relation "measure id") auto

declare dec.simps [simp del]

definition zfill :: "nat \<Rightarrow> str \<Rightarrow> str" where
  "zfill w s = replicate (w - length s) (ch (CHR ''0'')) @ s"

definition fmt04d :: "int \<Rightarrow> str" where
  "fmt04d n =
     (if n < 0 then ch (CHR ''-'') # zfill 3 (dec (nat (- n))) else zfill 4 (dec (nat n)))"

text \<open>
  Two notions used to reason about the output of \<open>fmt04d\<close>: the ASCII digits, and the
  number a string of ASCII digits denotes.
\<close>

definition ascii_digit :: "codepoint \<Rightarrow> bool" where
  "ascii_digit c = (48 \<le> c \<and> c \<le> 57)"

definition ascii_number :: "str \<Rightarrow> int" where
  "ascii_number s = foldl (\<lambda>a c. 10 * a + (int c - 48)) 0 s"


section \<open>Sequencer\<close>

text \<open>
  The extraction tree as the Sequencer sees it: a path names a regular file (with its
  content), a directory, or nothing. \<open>os.path.exists\<close> is true of files and of
  directories; \<open>shutil.copyfile\<close> and \<open>shutil.copy2\<close> raise on a directory.
\<close>

datatype entry = RegularFile string | Directory

type_synonym filesystem = "str \<Rightarrow> entry option"

definition path_exists :: "filesystem \<Rightarrow> str \<Rightarrow> bool" where
  "path_exists fs p = (fs p \<noteq> None)"

definition copyfile :: "filesystem \<Rightarrow> str \<Rightarrow> error + string" where
  "copyfile fs src =
     (case fs src of
        None \<Rightarrow> Inl FileNotFoundError
      | Some Directory \<Rightarrow> Inl IsADirectoryError
      | Some (RegularFile c) \<Rightarrow> Inr c)"

record sequenced_document =
  source_path :: str
  rank :: int
  output_filename :: str

definition extraction_dir :: str where
  "extraction_dir = lit ''extractedCHM''"

text \<open>
  The copy loop of \<open>HTMLOrganizer._copy_files_in_order\<close>; the loop of the generated
  \<open>orderHTM.py\<close> has the same test and the same two assignments, and its extra
  \<open>elif\<close> branch only prints. The loop state is \<open>last_copied\<close> and \<open>index\<close>. The result
  lists the documents copied into the (freshly created) target directory, in order,
  and the exception that ended the loop early, if any: neither caller catches an
  exception inside the loop.
\<close>

fun copy_loop ::
  "filesystem \<Rightarrow> str option \<Rightarrow> int \<Rightarrow> str list \<Rightarrow> sequenced_document list \<times> error option"
where
  "copy_loop fs last_copied index [] = ([], None)"
| "copy_loop fs last_copied index (filename # rest) =
     (let src_path = join extraction_dir filename;
          base_filename = basename filename
      in if path_exists fs src_path \<and> Some base_filename \<noteq> last_copied then
           (case copyfile fs src_path of
              Inl e \<Rightarrow> ([], Some e)
            | Inr c \<Rightarrow>
                (let new_filename = fmt04d index @ lit ''_'' @ base_filename;
                     (docs, err) = copy_loop fs (Some base_filename) (index + 1) rest
                 in (\<lparr>source_path = src_path, rank = index, output_filename = new_filename\<rparr> # docs,
                     err)))
         else copy_loop fs last_copied index rest)"

definition copy_files_in_order ::
  "filesystem \<Rightarrow> str list \<Rightarrow> sequenced_document list \<times> error option"
where
  "copy_files_in_order fs html_files = copy_loop fs None 1 html_files"

text \<open>
  The Sequencer as the specification words it, to compare the loop with:
  \<open>collapse_runs key\<close> keeps the first member of every run of neighbours with equal
  keys (on the keys themselves it is \<open>remdups_adj\<close>), \<open>collapse_after\<close> does the same
  after a given last key, and \<open>ranked_from i\<close> turns references into documents
  numbered \<open>i\<close>, \<open>i + 1\<close>, and so on.
\<close>

fun collapse_runs :: "('a \<Rightarrow> 'b) \<Rightarrow> 'a list \<Rightarrow> 'a list" where
  "collapse_runs key [] = []"
| "collapse_runs key [x] = [x]"
| "collapse_runs key (x # y # xs) =
     (if key x = key y then collapse_runs key (x # xs) else x # collapse_runs key (y # xs))"

fun collapse_after :: "'b option \<Rightarrow> ('a \<Rightarrow> 'b) \<Rightarrow> 'a list \<Rightarrow> 'a list" where
  "collapse_after last_key key [] = []"
| "collapse_after last_key key (x # xs) =
     (if Some (key x) = last_key then collapse_after last_key key xs
      else x # collapse_after (Some (key x)) key xs)"

fun ranked_from :: "int \<Rightarrow> str list \<Rightarrow> sequenced_document list" where
  "ranked_from i [] = []"
| "ranked_from i (reference # rest) =
     \<lparr>source_path = join extraction_dir reference, rank = i,
      output_filename = fmt04d i @ lit ''_'' @ basename reference\<rparr>
     # ranked_from (i + 1) rest"

section \<open>Asset flattening\<close>

text \<open>
  The document directory is a tree: a directory listing is a list of nodes in the order
  \<open>os.scandir\<close> reports them, a node being a file with its name and content or a
  directory with its name and its own listing.
\<close>

datatype node = File str string | Dir str "node list"

fun node_name :: "node \<Rightarrow> str" where
  "node_name (File name content) = name"
| "node_name (Dir name entries) = name"

fun files_of :: "node list \<Rightarrow> (str \<times> string) list" where
  "files_of [] = []"
| "files_of (File name content # entries) = (name, content) # files_of entries"
| "files_of (Dir name sub # entries) = files_of entries"

text \<open>
  \<open>os.walk\<close>, top-down: a directory yields its own \<open>(root, files)\<close> first, each file
  with the content a later copy reads, and then the walks of its subdirectories in
  listing order. \<open>root\<close> is kept as the list of directory names below the walked
  directory, so the source's test \<open>root != html_directory_path\<close> is \<open>root \<noteq> []\<close>.
\<close>

fun walk_node :: "str list \<Rightarrow> node \<Rightarrow> (str list \<times> (str \<times> string) list) list" where
  "walk_node root (File name content) = []"
| "walk_node root (Dir name entries) =
     (root @ [name], files_of entries) # concat (map (walk_node (root @ [name])) entries)"

definition walk :: "node list \<Rightarrow> (str list \<times> (str \<times> string) list) list" where
  "walk toplevel = ([], files_of toplevel) # concat (map (walk_node []) toplevel)"

text \<open>\<open>file.lower().endswith(('.htm', '.html', '.hhc', '.hhk'))\<close>.\<close>

definition is_document_name :: "(str \<Rightarrow> str) \<Rightarrow> str \<Rightarrow> bool" where
  "is_document_name lower file =
     (endswith (lower file) (lit ''.htm'') \<or> endswith (lower file) (lit ''.html'')
      \<or> endswith (lower file) (lit ''.hhc'') \<or> endswith (lower file) (lit ''.hhk''))"

definition top_exists :: "node list \<Rightarrow> str \<Rightarrow> bool" where
  "top_exists toplevel file = (file \<in> set (map node_name toplevel))"

text \<open>
  The body of the two nested loops of \<open>copy_assets_to_flat_structure\<close>, for one file of
  one walked directory. The state is the listing of the top-level directory, the only
  directory the pass writes to. \<open>copy_fails root file\<close> stands for the sources on which
  \<open>shutil.copy2\<close> raises; the exception is caught and reported, and nothing is written.
\<close>

definition copy_asset ::
  "(str \<Rightarrow> str) \<Rightarrow> (str list \<Rightarrow> str \<Rightarrow> bool) \<Rightarrow> str list \<Rightarrow> node list \<Rightarrow> str \<times> string
     \<Rightarrow> node list"
where
  "copy_asset lower copy_fails root toplevel f =
     (case f of (file, content) \<Rightarrow>
        if \<not> is_document_name lower file then
          if root \<noteq> [] then
            if \<not> top_exists toplevel file then
              if copy_fails root file then toplevel else toplevel @ [File file content]
            else toplevel
          else toplevel
        else toplevel)"

definition copy_assets_to_flat_structure ::
  "(str \<Rightarrow> str) \<Rightarrow> (str list \<Rightarrow> str \<Rightarrow> bool) \<Rightarrow> node list \<Rightarrow> node list"
where
  "copy_assets_to_flat_structure lower copy_fails toplevel =
     foldl (\<lambda>state (root, files). foldl (copy_asset lower copy_fails root) state files)
       toplevel (walk toplevel)"

text \<open>
  The files the pass visits, in order, each with the directory it was found in;
  \<open>sub_visited\<close> are those found below the top level. \<open>step\<close> is the loop body on one
  visited file, and a visited file is \<open>eligible\<close> when the body reaches the test of the
  destination and the copy would not raise.
\<close>

definition visited :: "node list \<Rightarrow> (str list \<times> str \<times> string) list" where
  "visited toplevel = concat (map (\<lambda>(root, files). map (\<lambda>f. (root, f)) files) (walk toplevel))"

definition top_lookup :: "node list \<Rightarrow> str \<Rightarrow> node option" where
  "top_lookup toplevel file = find (\<lambda>n. node_name n = file) toplevel"

definition sub_visited :: "node list \<Rightarrow> (str list \<times> str \<times> string) list" where
  "sub_visited toplevel =
     concat (map (\<lambda>(root, files). map (\<lambda>f. (root, f)) files)
       (concat (map (walk_node []) toplevel)))"

definition step ::
  "(str \<Rightarrow> str) \<Rightarrow> (str list \<Rightarrow> str \<Rightarrow> bool) \<Rightarrow> node list \<Rightarrow> str list \<times> str \<times> string
     \<Rightarrow> node list"
where
  "step lower copy_fails state v =
     (case v of (root, f) \<Rightarrow> copy_asset lower copy_fails root state f)"

definition eligible ::
  "(str \<Rightarrow> str) \<Rightarrow> (str list \<Rightarrow> str \<Rightarrow> bool) \<Rightarrow> str list \<times> str \<times> string \<Rightarrow> bool"
where
  "eligible lower copy_fails v =
     (case v of (root, fname, content) \<Rightarrow>
        \<not> is_document_name lower fname \<and> root \<noteq> [] \<and> \<not> copy_fails root fname)"

section \<open>Parsed markup\<close>

text \<open>
  What the code sees of a document parsed by the markup library: its tags in document
  order (the order in which \<open>find_all\<close> visits them), each with its name and its
  attributes. Nesting plays no part in the modelled code. Subscription \<open>tag[key]\<close> raises \<open>KeyError\<close> when the attribute is
  missing; assignment \<open>tag[key] = value\<close> replaces the value in place or adds the
  attribute at the end.
\<close>

record tag =
  tag_name :: str
  attrs :: "(str \<times> str) list"

definition getitem :: "tag \<Rightarrow> str \<Rightarrow> error + str" where
  "getitem t key = (case map_of (attrs t) key of None \<Rightarrow> Inl KeyError | Some v \<Rightarrow> Inr v)"

fun set_attr :: "str \<Rightarrow> str \<Rightarrow> (str \<times> str) list \<Rightarrow> (str \<times> str) list" where
  "set_attr key v [] = [(key, v)]"
| "set_attr key v ((k, old) # rest) =
     (if k = key then (key, v) # rest else (k, old) # set_attr key v rest)"

definition setitem :: "tag \<Rightarrow> str \<Rightarrow> str \<Rightarrow> tag" where
  "setitem t key v = t\<lparr>attrs := set_attr key v (attrs t)\<rparr>"


section \<open>TOC Parser\<close>

text \<open>
  \<open>soup.find_all('param', {'name': lambda x: x and x.lower() == 'local'})\<close>: the
  \<open>param\<close> tags whose \<open>name\<close> attribute is present, not empty and equal to \<open>local\<close>
  after \<open>str.lower\<close>.
\<close>

definition is_local_param :: "(str \<Rightarrow> str) \<Rightarrow> tag \<Rightarrow> bool" where
  "is_local_param lower t =
     (tag_name t = lit ''param'' \<and>
      (case map_of (attrs t) (lit ''name'') of
         None \<Rightarrow> False
       | Some x \<Rightarrow> x \<noteq> [] \<and> lower x = lit ''local''))"

definition find_all_local_params :: "(str \<Rightarrow> str) \<Rightarrow> tag list \<Rightarrow> tag list" where
  "find_all_local_params lower soup = filter (is_local_param lower) soup"

text \<open>\<open>filename.split('#')[0]\<close>: the part before the first \<open>#\<close>.\<close>

definition strip_fragment :: "str \<Rightarrow> str" where
  "strip_fragment filename = takeWhile (\<lambda>c. c \<noteq> ch (CHR ''#'')) filename"

text \<open>
  The parse section of the generated \<open>orderHTM.py\<close>: the comprehension
  \<open>[param['value'] for param in ...]\<close> subscripts every matching tag, so the first one
  without a \<open>value\<close> attribute raises. (The model starts from the parsed tags. The
  script parses the TOC text after it has been pasted into a string literal of the script,
  so a TOC text with a backslash or three double quotes reaches its parser changed, or
  not at all.)
\<close>

fun values_of :: "tag list \<Rightarrow> error + str list" where
  "values_of [] = Inr []"
| "values_of (param # rest) =
     (case getitem param (lit ''value'') of
        Inl e \<Rightarrow> Inl e
      | Inr v \<Rightarrow> (case values_of rest of Inl e \<Rightarrow> Inl e | Inr vs \<Rightarrow> Inr (v # vs)))"

definition html_files_ordered_sanitized :: "(str \<Rightarrow> str) \<Rightarrow> tag list \<Rightarrow> error + str list" where
  "html_files_ordered_sanitized lower soup =
     (case values_of (find_all_local_params lower soup) of
        Inl e \<Rightarrow> Inl e
      | Inr html_files_ordered \<Rightarrow> Inr (map strip_fragment html_files_ordered))"

text \<open>
  The loop of \<open>HTMLOrganizer._parse_hhc_file\<close>: a matching tag is subscripted only
  under the guard \<open>'value' in param.attrs\<close>.
\<close>

fun parse_hhc_loop :: "tag list \<Rightarrow> error + str list" where
  "parse_hhc_loop [] = Inr []"
| "parse_hhc_loop (param # rest) =
     (if map_of (attrs param) (lit ''value'') \<noteq> None then
        (case getitem param (lit ''value'') of
           Inl e \<Rightarrow> Inl e
         | Inr v \<Rightarrow>
             (case parse_hhc_loop rest of
                Inl e \<Rightarrow> Inl e
              | Inr html_files \<Rightarrow> Inr (strip_fragment v # html_files)))
      else parse_hhc_loop rest)"

definition parse_hhc_file :: "(str \<Rightarrow> str) \<Rightarrow> tag list \<Rightarrow> error + str list" where
  "parse_hhc_file lower soup = parse_hhc_loop (find_all_local_params lower soup)"


section \<open>Asset Path Normalizer\<close>

text \<open>
  \<open>find_all('link', rel="stylesheet")\<close>: the library reads \<open>rel\<close> as the list of its
  words, the maximal runs of characters that are not white space (\<open>\S+\<close>), and matches
  when one of them is the wanted word, letter case included.
\<close>

fun words_from :: "(codepoint \<Rightarrow> bool) \<Rightarrow> str \<Rightarrow> str \<Rightarrow> str list" where
  "words_from space cur [] = (if cur = [] then [] else [rev cur])"
| "words_from space cur (c # cs) =
     (if space c then
        (if cur = [] then words_from space [] cs else rev cur # words_from space [] cs)
      else words_from space (c # cur) cs)"

definition is_stylesheet_link :: "(codepoint \<Rightarrow> bool) \<Rightarrow> tag \<Rightarrow> bool" where
  "is_stylesheet_link space t =
     (tag_name t = lit ''link'' \<and>
      (case map_of (attrs t) (lit ''rel'') of
         None \<Rightarrow> False
       | Some v \<Rightarrow> lit ''stylesheet'' \<in> set (words_from space [] v)))"

text \<open>
  \<open>fix_image_paths\<close> (\<open>HTMLProcessor._fix_asset_paths\<close> has the same three loops): each
  loop replaces one attribute, where present, by its basename.
\<close>

definition flatten_attr :: "str \<Rightarrow> tag \<Rightarrow> tag" where
  "flatten_attr key t =
     (case map_of (attrs t) key of
        None \<Rightarrow> t
      | Some v \<Rightarrow> setitem t key (basename v))"

definition fix_img :: "tag \<Rightarrow> tag" where
  "fix_img t = (if tag_name t = lit ''img'' then flatten_attr (lit ''src'') t else t)"

definition fix_link :: "(codepoint \<Rightarrow> bool) \<Rightarrow> tag \<Rightarrow> tag" where
  "fix_link space t = (if is_stylesheet_link space t then flatten_attr (lit ''href'') t else t)"

definition fix_script :: "tag \<Rightarrow> tag" where
  "fix_script t = (if tag_name t = lit ''script'' then flatten_attr (lit ''src'') t else t)"

definition fix_image_paths :: "(codepoint \<Rightarrow> bool) \<Rightarrow> tag list \<Rightarrow> tag list" where
  "fix_image_paths space soup = map fix_script (map (fix_link space) (map fix_img soup))"

text \<open>
  Processing one document. Everything \<open>remove_show_framing\<close> and the \<open>try\<close> block of
  \<open>_process_single_file\<close> do between reading the bytes and writing the new text
  (detecting the encoding, decoding, the three replacements, parsing, fixing the
  paths, removing the script, serialising) is the function \<open>transform\<close> from the bytes
  read to the bytes written, or to the exception one of these steps raises. The
  documents are a map from path to bytes.
\<close>

type_synonym documents = "str \<Rightarrow> string option"

definition remove_show_framing ::
  "(string \<Rightarrow> error + string) \<Rightarrow> documents \<Rightarrow> str \<Rightarrow> error + documents"
where
  "remove_show_framing transform docs file_path =
     (case docs file_path of
        None \<Rightarrow> Inl FileNotFoundError
      | Some raw_data \<Rightarrow>
          (case transform raw_data of
             Inl e \<Rightarrow> Inl e
           | Inr out \<Rightarrow> Inr (docs(file_path \<mapsto> out))))"

text \<open>
  The last loop of \<open>removeText.py\<close> calls \<open>remove_show_framing\<close> on each file with no
  handler around the call: the first exception ends the script. The result is the
  exception, if any, and the documents as the script leaves them.
\<close>

fun removeText_loop ::
  "(string \<Rightarrow> error + string) \<Rightarrow> documents \<Rightarrow> str list \<Rightarrow> error option \<times> documents"
where
  "removeText_loop transform docs [] = (None, docs)"
| "removeText_loop transform docs (file_path # rest) =
     (case remove_show_framing transform docs file_path of
        Inl e \<Rightarrow> (Some e, docs)
      | Inr docs' \<Rightarrow> removeText_loop transform docs' rest)"

text \<open>
  \<open>HTMLProcessor._process_single_file\<close> wraps the same steps in \<open>try\<close>/\<open>except\<close> and
  returns whether they succeeded. \<open>process_files\<close> is the part of \<open>process_all\<close> after
  the asset copy: \<open>executor.map\<close> over the files, each worker writing only its own
  file, and the loop over the results, which only logs; then \<open>process_all\<close> returns
  \<open>True\<close>.
\<close>

definition process_single_file ::
  "(string \<Rightarrow> error + string) \<Rightarrow> documents \<Rightarrow> str \<Rightarrow> bool \<times> documents"
where
  "process_single_file transform docs file_path =
     (case remove_show_framing transform docs file_path of
        Inl e \<Rightarrow> (False, docs)
      | Inr docs' \<Rightarrow> (True, docs'))"

fun executor_map ::
  "(string \<Rightarrow> error + string) \<Rightarrow> documents \<Rightarrow> str list \<Rightarrow> bool list \<times> documents"
where
  "executor_map transform docs [] = ([], docs)"
| "executor_map transform docs (file_path # rest) =
     (case process_single_file transform docs file_path of
        (result, docs') \<Rightarrow>
          (case executor_map transform docs' rest of
             (results, docs'') \<Rightarrow> (result # results, docs'')))"

definition process_files ::
  "(string \<Rightarrow> error + string) \<Rightarrow> documents \<Rightarrow> str list \<Rightarrow> bool \<times> bool list \<times> documents"
where
  "process_files transform docs html_files =
     (case executor_map transform docs html_files of
        (results, docs') \<Rightarrow> (True, results, docs'))"

section \<open>Merge Order Resolver\<close>

text \<open>
  \<open>\d\<close> matches the characters that have a decimal value, and \<open>int\<close> reads a string
  of them as a number in base ten. (\<open>int\<close> is applied to group 1 of a match only, which
  consists of such characters.)
\<close>

definition isdigit :: "(codepoint \<Rightarrow> nat option) \<Rightarrow> codepoint \<Rightarrow> bool" where
  "isdigit decimal c = (decimal c \<noteq> None)"

definition int_of_digits :: "(codepoint \<Rightarrow> nat option) \<Rightarrow> str \<Rightarrow> int" where
  "int_of_digits decimal s =
     foldl (\<lambda>a c. 10 * a + (case decimal c of None \<Rightarrow> 0 | Some d \<Rightarrow> int d)) 0 s"

text \<open>
  \<open>re.search(r'(\d+)_', s)\<close> tries the start positions of \<open>s\<close> from left to right. At
  one position the pattern matches exactly when the longest run of digits there is not
  empty and is followed by an underscore (a shorter run is followed by a digit), and
  group 1 is that run. \<open>re.search(r'^(\d+)', s)\<close> matches when \<open>s\<close> starts with a digit,
  and group 1 is the longest run of digits at the start.
\<close>

definition match_digits_underscore :: "(codepoint \<Rightarrow> nat option) \<Rightarrow> str \<Rightarrow> str option" where
  "match_digits_underscore decimal s =
     (let run = takeWhile (isdigit decimal) s
      in if run \<noteq> [] \<and> take 1 (dropWhile (isdigit decimal) s) = lit ''_'' then Some run
         else None)"

fun search_digits_underscore :: "(codepoint \<Rightarrow> nat option) \<Rightarrow> str \<Rightarrow> str option" where
  "search_digits_underscore decimal [] = match_digits_underscore decimal []"
| "search_digits_underscore decimal (c # cs) =
     (case match_digits_underscore decimal (c # cs) of
        Some run \<Rightarrow> Some run
      | None \<Rightarrow> search_digits_underscore decimal cs)"

definition match_leading_digits :: "(codepoint \<Rightarrow> nat option) \<Rightarrow> str \<Rightarrow> str option" where
  "match_leading_digits decimal s =
     (let run = takeWhile (isdigit decimal) s in if run \<noteq> [] then Some run else None)"

text \<open>\<open>extract_number\<close> of \<open>combinePDFs.py\<close>.\<close>

definition extract_number :: "(codepoint \<Rightarrow> nat option) \<Rightarrow> str \<Rightarrow> int" where
  "extract_number decimal filename =
     (case search_digits_underscore decimal (basename filename) of
        Some group1 \<Rightarrow> int_of_digits decimal group1
      | None \<Rightarrow>
          (case match_leading_digits decimal (basename filename) of
             Some group1 \<Rightarrow> int_of_digits decimal group1
           | None \<Rightarrow> 999999))"

definition pdfs_directory_path :: str where
  "pdfs_directory_path = lit ''pdfs''"

text \<open>
  The listing is what \<open>os.listdir\<close> returns, in whatever order. Python's \<open>sorted\<close> and
  \<open>list.sort\<close> are stable, as \<open>sort_key\<close> is.
\<close>

definition pdf_files :: "str list \<Rightarrow> str list" where
  "pdf_files listing =
     map (join pdfs_directory_path) (filter (\<lambda>f. endswith f (lit ''.pdf'')) listing)"

definition pdf_files_sorted :: "(codepoint \<Rightarrow> nat option) \<Rightarrow> str list \<Rightarrow> str list" where
  "pdf_files_sorted decimal listing = sort_key (extract_number decimal) (pdf_files listing)"

text \<open>
  The sort key of \<open>CloudPDFConverter.combine_pdfs\<close>,
  \<open>int(re.search(r'(\d+)_', os.path.basename(x)).group(1))\<close>: without a match
  \<open>re.search\<close> returns \<open>None\<close> and \<open>.group\<close> raises \<open>AttributeError\<close>. \<open>list.sort\<close>
  computes the key of every element, in order, before it sorts. \<open>combine_order\<close> is
  \<open>combine_pdfs\<close> up to the sort: it returns \<open>False\<close> when there is no PDF, and an
  exception from a key leaves the \<open>try\<close> block, so that nothing is merged.
\<close>

definition numeric_prefix :: "(codepoint \<Rightarrow> nat option) \<Rightarrow> str \<Rightarrow> error + int" where
  "numeric_prefix decimal x =
     (case search_digits_underscore decimal (basename x) of
        None \<Rightarrow> Inl AttributeError
      | Some group1 \<Rightarrow> Inr (int_of_digits decimal group1))"

fun keyed :: "(codepoint \<Rightarrow> nat option) \<Rightarrow> str list \<Rightarrow> error + (int \<times> str) list" where
  "keyed decimal [] = Inr []"
| "keyed decimal (x # xs) =
     (case numeric_prefix decimal x of
        Inl e \<Rightarrow> Inl e
      | Inr k \<Rightarrow>
          (case keyed decimal xs of Inl e \<Rightarrow> Inl e | Inr ks \<Rightarrow> Inr ((k, x) # ks)))"

datatype combine_result = NoPdfFiles | Raised error | MergeOrder "str list"

definition combine_order :: "(codepoint \<Rightarrow> nat option) \<Rightarrow> str list \<Rightarrow> combine_result" where
  "combine_order decimal listing =
     (let pdfs = pdf_files listing
      in if pdfs = [] then NoPdfFiles
         else (case keyed decimal pdfs of
                 Inl e \<Rightarrow> Raised e
               | Inr ks \<Rightarrow> MergeOrder (map snd (sort_key fst ks))))"

text \<open>
  The places of a name where a digit stands right before an underscore: the pattern
  \<open>(\d+)_\<close> matches somewhere in a name exactly when there is such a place.
\<close>

fun has_digit_underscore :: "(codepoint \<Rightarrow> nat option) \<Rightarrow> str \<Rightarrow> bool" where
  "has_digit_underscore decimal [] = False"
| "has_digit_underscore decimal [c] = False"
| "has_digit_underscore decimal (c # d # cs) =
     ((isdigit decimal c \<and> d = ch (CHR ''_'')) \<or> has_digit_underscore decimal (d # cs))"

section \<open>Facts about paths and decimal formatting\<close>

lemma basename_append_slash: "basename (a @ ch (CHR ''/'') # b) = basename b"
proof -
  have "takeWhile (\<lambda>c. c \<noteq> ch (CHR ''/'')) (xs @ ch (CHR ''/'') # ys)
        = takeWhile (\<lambda>c. c \<noteq> ch (CHR ''/'')) xs" for xs ys
    by (induction xs) auto
  hence "takeWhile (\<lambda>c. c \<noteq> ch (CHR ''/'')) (rev b @ ch (CHR ''/'') # rev a)
        = takeWhile (\<lambda>c. c \<noteq> ch (CHR ''/'')) (rev b)" .
  thus ?thesis by (simp add: basename_def)
qed

lemma basename_slash_end:
  assumes "a \<noteq> []" and "last a = ch (CHR ''/'')"
  shows "basename (a @ b) = basename b"
proof -
  obtain a' where "a = a' @ [ch (CHR ''/'')]"
    using assms by (metis append_butlast_last_id)
  thus ?thesis using basename_append_slash [of a' b] by simp
qed

lemma basename_join: "basename (join a b) = basename b"
proof (cases "a = []")
  case True
  thus ?thesis by (simp add: join_def)
next
  case False
  thus ?thesis
    using basename_slash_end [of a "[]"]
    by (simp add: join_def basename_append_slash [simplified] basename_slash_end [simplified])
qed

lemma basename_no_sep: "ch (CHR ''/'') \<notin> set (basename p)"
  by (auto simp: basename_def dest: set_takeWhileD)

lemma dec_digits: "\<forall>c\<in>set (dec n). ascii_digit c"
proof (induction n rule: dec.induct)
  case (1 n)
  show ?case
  proof (cases "n < 10")
    case True
    thus ?thesis by (subst dec.simps) (simp add: ascii_digit_def)
  next
    case False
    have "n mod 10 < 10" by simp
    hence "ascii_digit (48 + n mod 10)" by (simp add: ascii_digit_def)
    with False 1 show ?thesis by (subst dec.simps) auto
  qed
qed

lemma ascii_number_snoc:
  "ascii_number (s @ [c]) = 10 * ascii_number s + (int c - 48)"
  by (simp add: ascii_number_def)

lemma ascii_number_dec: "ascii_number (dec n) = int n"
proof (induction n rule: dec.induct)
  case (1 n)
  show ?case
  proof (cases "n < 10")
    case True
    thus ?thesis by (subst dec.simps) (simp add: ascii_number_def)
  next
    case False
    have "n mod 10 < 10" by simp
    moreover have "int n = 10 * int (n div 10) + int (n mod 10)"
      by (metis mult_div_mod_eq of_nat_add of_nat_mult of_nat_numeral)
    ultimately show ?thesis using False 1 by (subst dec.simps) (simp add: ascii_number_snoc)
  qed
qed

lemma ascii_number_zeros: "ascii_number (replicate k (ch (CHR ''0'')) @ s) = ascii_number s"
proof -
  have "foldl (\<lambda>a c. 10 * a + (int c - 48)) 0 (replicate k (ch (CHR ''0''))) = 0"
    by (induction k) simp_all
  thus ?thesis by (simp add: ascii_number_def)
qed

lemma ascii_number_zfill: "ascii_number (zfill w (dec n)) = int n"
  by (simp add: zfill_def ascii_number_zeros [simplified] ascii_number_dec)

lemma zfill_digits: "\<forall>c\<in>set (zfill w (dec n)). ascii_digit c"
  using dec_digits [of n] by (auto simp: zfill_def ascii_digit_def)

lemma fmt04d_nonneg: "0 \<le> n \<Longrightarrow> fmt04d n = zfill 4 (dec (nat n))"
  by (simp add: fmt04d_def)

lemma underscore_not_digit: "\<not> ascii_digit (ch (CHR ''_''))"
  by (simp add: ascii_digit_def)

lemma ranked_name_inj:
  assumes "0 \<le> m" and "0 \<le> n" and "fmt04d m @ lit ''_'' @ a = fmt04d n @ lit ''_'' @ b"
  shows "m = n"
proof -
  have "takeWhile ascii_digit (fmt04d m @ ch (CHR ''_'') # a) = fmt04d m"
    using assms(1) zfill_digits by (simp add: fmt04d_nonneg underscore_not_digit [simplified])
  moreover have "takeWhile ascii_digit (fmt04d n @ ch (CHR ''_'') # b) = fmt04d n"
    using assms(2) zfill_digits by (simp add: fmt04d_nonneg underscore_not_digit [simplified])
  ultimately have "fmt04d m = fmt04d n" using assms(3) by simp
  hence "ascii_number (zfill 4 (dec (nat m))) = ascii_number (zfill 4 (dec (nat n)))"
    using assms(1,2) by (simp add: fmt04d_nonneg)
  thus ?thesis using assms(1,2) by (simp add: ascii_number_zfill)
qed

lemma fmt04d_1: "fmt04d 1 = lit ''0001''"
  by code_simp

lemma fmt04d_2: "fmt04d 2 = lit ''0002''"
  by code_simp

lemma fmt04d_3: "fmt04d 3 = lit ''0003''"
  by code_simp


section \<open>Facts about the copy loop\<close>

lemma copy_loop_ranks:
  "map rank (fst (copy_loop fs last_copied i refs))
     = [i..i + int (length (fst (copy_loop fs last_copied i refs))) - 1]"
proof (induction refs arbitrary: last_copied i)
  case Nil
  show ?case by simp
next
  case (Cons r refs)
  show ?case
    using Cons.IH [of "Some (basename r)" "i + 1"] Cons.IH [of last_copied i]
    by (auto simp: Let_def upto_rec1 [of i] split: sum.splits prod.splits)
qed

lemma copy_loop_names:
  "map output_filename (fst (copy_loop fs last_copied i refs))
     = map (\<lambda>d. fmt04d (rank d) @ lit ''_'' @ basename (source_path d))
         (fst (copy_loop fs last_copied i refs))"
proof (induction refs arbitrary: last_copied i)
  case Nil
  show ?case by simp
next
  case (Cons r refs)
  show ?case
    using Cons.IH [of "Some (basename r)" "i + 1"] Cons.IH [of last_copied i]
    by (auto simp: Let_def basename_join split: sum.splits prod.splits)
qed

lemma distinct_map_via:
  assumes "distinct (map g xs)"
    and "\<And>x y. x \<in> set xs \<Longrightarrow> y \<in> set xs \<Longrightarrow> f x = f y \<Longrightarrow> g x = g y"
  shows "distinct (map f xs)"
  using assms
proof (induction xs)
  case Nil
  show ?case by simp
next
  case (Cons x xs)
  have "f x \<notin> f ` set xs"
  proof
    assume "f x \<in> f ` set xs"
    then obtain y where y: "y \<in> set xs" "f x = f y" by auto
    hence "g x = g y" using Cons.prems(2) [of x y] by simp
    thus False using Cons.prems(1) y(1) by auto
  qed
  moreover have "distinct (map f xs)"
    using Cons.IH Cons.prems by auto
  ultimately show ?case by simp
qed

lemma copy_loop_distinct:
  assumes "1 \<le> i"
  shows "distinct (map output_filename (fst (copy_loop fs last_copied i refs)))"
proof -
  let ?docs = "fst (copy_loop fs last_copied i refs)"
  have ranks: "map rank ?docs = [i..i + int (length ?docs) - 1]"
    by (rule copy_loop_ranks)
  hence dr: "distinct (map rank ?docs)" by simp
  have pos: "0 \<le> rank d" if "d \<in> set ?docs" for d
  proof -
    have "rank d \<in> set (map rank ?docs)" using that by simp
    thus ?thesis using assms unfolding ranks by simp
  qed
  have nm: "output_filename d = fmt04d (rank d) @ lit ''_'' @ basename (source_path d)"
    if "d \<in> set ?docs" for d
  proof -
    have "\<forall>d\<in>set ?docs. output_filename d = fmt04d (rank d) @ lit ''_'' @ basename (source_path d)"
      using copy_loop_names [of fs last_copied i refs] by (simp only: map_eq_conv)
    thus ?thesis using that by blast
  qed
  show ?thesis
  proof (rule distinct_map_via [OF dr])
    fix x y
    assume "x \<in> set ?docs" "y \<in> set ?docs" "output_filename x = output_filename y"
    thus "rank x = rank y"
      using ranked_name_inj [of "rank x" "rank y" "basename (source_path x)" "basename (source_path y)"]
        pos nm by simp
  qed
qed

lemma map_pair_zip: "map (\<lambda>x. (f x, g x)) xs = zip (map f xs) (map g xs)"
  by (induction xs) simp_all


lemma collapse_runs_after:
  "collapse_runs key (x # xs) = x # collapse_after (Some (key x)) key xs"
  by (induction xs arbitrary: x) auto

lemma collapse_after_None: "collapse_after None key xs = collapse_runs key xs"
  by (cases xs) (simp_all add: collapse_runs_after)

lemma collapse_runs_keys: "map key (collapse_runs key xs) = remdups_adj (map key xs)"
  by (induction key xs rule: collapse_runs.induct) simp_all

lemma ranked_from_ranks: "map rank (ranked_from i rs) = [i..i + int (length rs) - 1]"
  by (induction rs arbitrary: i) (simp_all add: upto_rec1)

lemma copy_loop_spec:
  assumes "\<forall>r\<in>set refs. fs (join extraction_dir r) \<noteq> Some Directory"
  shows "copy_loop fs last_copied i refs
           = (ranked_from i (collapse_after last_copied basename
                (filter (\<lambda>r. path_exists fs (join extraction_dir r)) refs)), None)"
  using assms
proof (induction refs arbitrary: last_copied i)
  case Nil
  show ?case by simp
next
  case (Cons r refs)
  have nd: "\<forall>r\<in>set refs. fs (join extraction_dir r) \<noteq> Some Directory"
    using Cons.prems by simp
  note IH = Cons.IH [OF nd]
  show ?case
  proof (cases "path_exists fs (join extraction_dir r)")
    case False
    thus ?thesis using IH [of last_copied i] by simp
  next
    case True
    then obtain c where c: "fs (join extraction_dir r) = Some (RegularFile c)"
      using Cons.prems
      by (cases "fs (join extraction_dir r)") (auto simp: path_exists_def intro: entry.exhaust)
    show ?thesis
    proof (cases "Some (basename r) = last_copied")
      case True
      thus ?thesis
        using IH [of last_copied i] \<open>path_exists fs (join extraction_dir r)\<close> by auto
    next
      case False
      thus ?thesis
        using IH [of "Some (basename r)" "i + 1"] \<open>path_exists fs (join extraction_dir r)\<close> c
        by (simp add: Let_def copyfile_def)
    qed
  qed
qed

section \<open>Facts about the flattening pass\<close>

lemma foldl_concat_pairs:
  "foldl (\<lambda>state (root, files). foldl (copy_asset lw cf root) state files) s w
     = foldl (step lw cf) s (concat (map (\<lambda>(root, files). map (\<lambda>f. (root, f)) files) w))"
proof (induction w arbitrary: s)
  case Nil
  show ?case by simp
next
  case (Cons a w)
  obtain root files where a: "a = (root, files)" by (cases a)
  have "foldl (copy_asset lw cf root) s files = foldl (step lw cf) s (map (\<lambda>f. (root, f)) files)" for s
    by (induction files arbitrary: s) (simp_all add: step_def)
  thus ?case using Cons.IH by (simp add: a)
qed

lemma pass_visited:
  "copy_assets_to_flat_structure lw cf t = foldl (step lw cf) t (visited t)"
  by (simp add: copy_assets_to_flat_structure_def visited_def foldl_concat_pairs)

lemma step_cases:
  "step lw cf s (root, fname, content) =
     (if eligible lw cf (root, fname, content) \<and> \<not> top_exists s fname then s @ [File fname content] else s)"
  by (auto simp: step_def copy_asset_def eligible_def)

lemma walk_node_files: "walk_node root (File n c) = []"
  by simp

lemma walk_append_files:
  assumes "\<forall>n\<in>set added. \<exists>name content. n = File name content"
  shows "concat (map (walk_node []) (t @ added)) = concat (map (walk_node []) t)"
proof -
  have "concat (map (walk_node []) added) = []"
    using assms by (induction added) auto
  thus ?thesis by simp
qed


lemma visited_split:
  "visited t = map (\<lambda>f. ([], f)) (files_of t) @ sub_visited t"
  by (simp add: visited_def walk_def sub_visited_def)

lemma step_root_nil: "foldl (step lw cf) s (map (\<lambda>f. ([], f)) fs) = s"
  by (induction fs) (auto simp: step_def copy_asset_def)

lemma pass_sub_visited:
  "copy_assets_to_flat_structure lw cf t = foldl (step lw cf) t (sub_visited t)"
  by (simp add: pass_visited visited_split step_root_nil)

lemma fold_shape:
  "\<exists>added. foldl (step lw cf) s vs = s @ added
      \<and> (\<forall>n\<in>set added. \<exists>name content. n = File name content)"
proof (induction vs arbitrary: s)
  case Nil
  show ?case by simp
next
  case (Cons v vs)
  obtain root fname content where v: "v = (root, fname, content)" by (cases v)
  show ?case
  proof (cases "eligible lw cf (root, fname, content) \<and> \<not> top_exists s fname")
    case True
    obtain added where "foldl (step lw cf) (s @ [File fname content]) vs = (s @ [File fname content]) @ added"
      and "\<forall>n\<in>set added. \<exists>name content. n = File name content"
      using Cons.IH [of "s @ [File fname content]"] by blast
    hence "foldl (step lw cf) s (v # vs) = s @ (File fname content # added)
        \<and> (\<forall>n\<in>set (File fname content # added). \<exists>name content. n = File name content)"
      using True by (simp add: v step_cases)
    thus ?thesis by blast
  next
    case False
    hence "step lw cf s v = s" by (auto simp: v step_cases)
    thus ?thesis using Cons.IH [of s] by simp
  qed
qed

lemma sub_visited_append_files:
  assumes "\<forall>n\<in>set added. \<exists>name content. n = File name content"
  shows "sub_visited (t @ added) = sub_visited t"
  using walk_append_files [OF assms] by (simp add: sub_visited_def)

lemma fold_names_mono:
  "top_exists s fname \<Longrightarrow> top_exists (foldl (step lw cf) s vs) fname"
proof -
  obtain added where "foldl (step lw cf) s vs = s @ added" using fold_shape by blast
  thus "top_exists s fname \<Longrightarrow> top_exists (foldl (step lw cf) s vs) fname"
    by (simp add: top_exists_def)
qed

lemma fold_covers:
  "(root, fname, content) \<in> set vs \<Longrightarrow> eligible lw cf (root, fname, content)
     \<Longrightarrow> top_exists (foldl (step lw cf) s vs) fname"
proof (induction vs arbitrary: s)
  case Nil
  thus ?case by simp
next
  case (Cons v vs)
  show ?case
  proof (cases "v = (root, fname, content)")
    case True
    have "top_exists (step lw cf s v) fname"
      using Cons.prems(2) by (auto simp: True step_cases top_exists_def)
    thus ?thesis using fold_names_mono by simp
  next
    case False
    thus ?thesis using Cons by simp
  qed
qed

lemma fold_fixed:
  "(\<And>root fname content. (root, fname, content) \<in> set vs \<Longrightarrow> eligible lw cf (root, fname, content)
       \<Longrightarrow> top_exists s fname)
     \<Longrightarrow> foldl (step lw cf) s vs = s"
proof (induction vs)
  case Nil
  show ?case by simp
next
  case (Cons v vs)
  obtain root fname content where v: "v = (root, fname, content)" by (cases v)
  have "step lw cf s v = s" using Cons.prems [of root fname content] by (auto simp: v step_cases)
  moreover have "foldl (step lw cf) s vs = s"
    by (rule Cons.IH) (use Cons.prems in auto)
  ultimately show ?case by simp
qed

lemma find_append:
  "find P (xs @ ys) = (case find P xs of None \<Rightarrow> find P ys | Some x \<Rightarrow> Some x)"
  by (induction xs) simp_all

lemma fold_lookup:
  "top_lookup (foldl (step lw cf) s vs) fname
     = (case top_lookup s fname of
          Some n \<Rightarrow> Some n
        | None \<Rightarrow>
            map_option (\<lambda>(root, name, content). File name content)
              (find (\<lambda>(root, name, content). name = fname \<and> eligible lw cf (root, name, content)) vs))"
proof (induction vs arbitrary: s)
  case Nil
  show ?case by (simp split: option.splits)
next
  case (Cons v vs)
  obtain root name content where v: "v = (root, name, content)" by (cases v)
  have ex: "top_exists s fname \<longleftrightarrow> top_lookup s fname \<noteq> None" for s
    by (auto simp: top_exists_def top_lookup_def find_None_iff)
  show ?case
  proof (cases "top_lookup s fname")
    case (Some n)
    hence "top_lookup (step lw cf s v) fname = Some n"
      by (auto simp: v step_cases top_lookup_def find_append)
    thus ?thesis using Cons.IH [of "step lw cf s v"] Some by simp
  next
    case None
    show ?thesis
    proof (cases "name = fname \<and> eligible lw cf (root, name, content)")
      case True
      hence "top_lookup (step lw cf s v) fname = Some (File name content)"
        using None ex [of s] by (auto simp: v step_cases top_lookup_def find_append split: option.splits)
      thus ?thesis using Cons.IH [of "step lw cf s v"] None True by (auto simp: v)
    next
      case False
      hence "top_lookup (step lw cf s v) fname = None"
        using None by (auto simp: v step_cases top_lookup_def find_append split: option.splits)
      thus ?thesis using Cons.IH [of "step lw cf s v"] None False by (auto simp: v)
    qed
  qed
qed

lemma fold_distinct:
  "distinct (map node_name s) \<Longrightarrow> distinct (map node_name (foldl (step lw cf) s vs))"
proof (induction vs arbitrary: s)
  case Nil
  thus ?case by simp
next
  case (Cons v vs)
  obtain root name content where v: "v = (root, name, content)" by (cases v)
  have "distinct (map node_name (step lw cf s v))"
    using Cons.prems by (auto simp: v step_cases top_exists_def)
  thus ?case using Cons.IH by simp
qed

lemma find_skip_top:
  "find (\<lambda>(root, name, content). name = fname \<and> eligible lw cf (root, name, content))
     (map (\<lambda>f. ([], f)) fs @ vs)
   = find (\<lambda>(root, name, content). name = fname \<and> eligible lw cf (root, name, content)) vs"
  by (induction fs) (auto simp: eligible_def)

section \<open>Facts about the TOC Parser and the Asset Path Normalizer\<close>

lemma parse_hhc_loop_total: "\<exists>html_files. parse_hhc_loop params = Inr html_files"
proof (induction params)
  case Nil
  show ?case by simp
next
  case (Cons param rest)
  then obtain html_files where "parse_hhc_loop rest = Inr html_files" by blast
  thus ?case by (auto simp: getitem_def)
qed

lemma parse_hhc_file_total: "\<exists>html_files. parse_hhc_file lower soup = Inr html_files"
  unfolding parse_hhc_file_def by (rule parse_hhc_loop_total)

lemma parse_hhc_file_no_match:
  "find_all_local_params lower soup = [] \<Longrightarrow> parse_hhc_file lower soup = Inr []"
  by (simp add: parse_hhc_file_def)

lemma parsers_agree_loop:
  "\<forall>param\<in>set params. map_of (attrs param) (lit ''value'') \<noteq> None \<Longrightarrow>
     (case values_of params of Inl e \<Rightarrow> Inl e | Inr vs \<Rightarrow> Inr (map strip_fragment vs))
       = parse_hhc_loop params"
proof (induction params)
  case Nil
  show ?case by simp
next
  case (Cons param rest)
  thus ?case by (cases "values_of rest") (auto simp: getitem_def split: sum.splits)
qed

lemma map_of_set_attr_same: "map_of (set_attr key v as) key = Some v"
  by (induction as) auto

lemma map_of_set_attr_other: "k \<noteq> key \<Longrightarrow> map_of (set_attr key v as) k = map_of as k"
  by (induction as) auto

lemma flatten_attr_name: "tag_name (flatten_attr key t) = tag_name t"
  by (simp add: flatten_attr_def setitem_def split: option.splits)

lemma flatten_attr_same:
  "map_of (attrs (flatten_attr key t)) key = map_option basename (map_of (attrs t) key)"
  by (simp add: flatten_attr_def setitem_def map_of_set_attr_same split: option.splits)

lemma flatten_attr_other:
  "k \<noteq> key \<Longrightarrow> map_of (attrs (flatten_attr key t)) k = map_of (attrs t) k"
  by (simp add: flatten_attr_def setitem_def map_of_set_attr_other split: option.splits)

lemma fix_image_paths_nth:
  "i < length soup \<Longrightarrow> fix_image_paths space soup ! i = fix_script (fix_link space (fix_img (soup ! i)))"
  by (simp add: fix_image_paths_def)

lemma fix_tag_name: "tag_name (fix_script (fix_link space (fix_img t))) = tag_name t"
  by (simp add: fix_script_def fix_link_def fix_img_def flatten_attr_name)

lemma fix_tag_img:
  "tag_name t = lit ''img'' \<Longrightarrow>
     map_of (attrs (fix_script (fix_link space (fix_img t)))) (lit ''src'')
       = map_option basename (map_of (attrs t) (lit ''src''))"
  by (simp add: fix_script_def fix_link_def fix_img_def is_stylesheet_link_def
      flatten_attr_name flatten_attr_same)

lemma fix_tag_link:
  "is_stylesheet_link space t \<Longrightarrow>
     map_of (attrs (fix_script (fix_link space (fix_img t)))) (lit ''href'')
       = map_option basename (map_of (attrs t) (lit ''href''))"
  by (simp add: fix_script_def fix_link_def fix_img_def is_stylesheet_link_def
      flatten_attr_name flatten_attr_same)

lemma fix_tag_script:
  "tag_name t = lit ''script'' \<Longrightarrow>
     map_of (attrs (fix_script (fix_link space (fix_img t)))) (lit ''src'')
       = map_option basename (map_of (attrs t) (lit ''src''))"
  by (simp add: fix_script_def fix_link_def fix_img_def is_stylesheet_link_def
      flatten_attr_name flatten_attr_same)

lemma executor_map_Cons:
  "executor_map transform docs (f # files)
     = (fst (process_single_file transform docs f)
          # fst (executor_map transform (snd (process_single_file transform docs f)) files),
        snd (executor_map transform (snd (process_single_file transform docs f)) files))"
  by (simp split: prod.splits)

lemma executor_map_length: "length (fst (executor_map transform docs files)) = length files"
proof (induction files arbitrary: docs)
  case Nil
  show ?case by simp
next
  case (Cons f files)
  show ?case
    using Cons.IH [of "snd (process_single_file transform docs f)"]
    by (simp only: executor_map_Cons fst_conv length_Cons)
qed

lemma executor_map_other:
  "p \<notin> set files \<Longrightarrow> snd (executor_map transform docs files) p = docs p"
proof (induction files arbitrary: docs)
  case Nil
  show ?case by simp
next
  case (Cons f files)
  have "snd (process_single_file transform docs f) p = docs p"
    using Cons.prems
    by (auto simp: process_single_file_def remove_show_framing_def split: option.splits sum.splits)
  thus ?case
    using Cons.IH [of "snd (process_single_file transform docs f)"] Cons.prems
    by (simp add: executor_map_Cons del: executor_map.simps)
qed

lemma executor_map_each:
  "distinct files \<Longrightarrow> p \<in> set files \<Longrightarrow>
     snd (executor_map transform docs files) p
       = (case docs p of
            None \<Rightarrow> None
          | Some raw_data \<Rightarrow>
              (case transform raw_data of Inl e \<Rightarrow> Some raw_data | Inr out \<Rightarrow> Some out))"
proof (induction files arbitrary: docs)
  case Nil
  thus ?case by simp
next
  case (Cons f files)
  let ?docs' = "snd (process_single_file transform docs f)"
  have step: "snd (executor_map transform docs (f # files)) = snd (executor_map transform ?docs' files)"
    by (simp add: executor_map_Cons del: executor_map.simps)
  show ?case
  proof (cases "p = f")
    case True
    hence "p \<notin> set files" using Cons.prems(1) by simp
    hence "snd (executor_map transform ?docs' files) p = ?docs' p"
      by (rule executor_map_other)
    thus ?thesis
      unfolding step
      by (auto simp: True process_single_file_def remove_show_framing_def
          split: option.splits sum.splits)
  next
    case False
    hence "p \<in> set files" using Cons.prems(2) by simp
    moreover have "?docs' p = docs p"
      using False
      by (auto simp: process_single_file_def remove_show_framing_def split: option.splits sum.splits)
    ultimately show ?thesis
      unfolding step using Cons.IH [of ?docs'] Cons.prems(1) by simp
  qed
qed

lemma words_from_sublist:
  "w \<in> set (words_from space cur s) \<Longrightarrow> \<exists>pre post. rev cur @ s = pre @ w @ post"
proof (induction s arbitrary: cur)
  case Nil
  hence "w = rev cur" by (simp split: if_splits)
  hence "rev cur @ [] = [] @ w @ []" by simp
  thus ?case by blast
next
  case (Cons c cs)
  show ?case
  proof (cases "space c")
    case False
    hence "w \<in> set (words_from space (c # cur) cs)" using Cons.prems by simp
    then obtain pre post where "rev (c # cur) @ cs = pre @ w @ post"
      using Cons.IH by blast
    hence "rev cur @ c # cs = pre @ w @ post" by simp
    thus ?thesis by blast
  next
    case True
    show ?thesis
    proof (cases "cur \<noteq> [] \<and> w = rev cur")
      case True
      hence "rev cur @ c # cs = [] @ w @ (c # cs)" by simp
      thus ?thesis by blast
    next
      case False
      hence "w \<in> set (words_from space [] cs)"
        using Cons.prems \<open>space c\<close> by (auto split: if_splits)
      then obtain pre post where "rev [] @ cs = pre @ w @ post"
        using Cons.IH by blast
      hence "rev cur @ c # cs = (rev cur @ c # pre) @ w @ post" by simp
      thus ?thesis by blast
    qed
  qed
qed

lemma words_from_whole:
  assumes "w \<in> set (words_from space [] s)" and "length w = length s"
  shows "w = s"
proof -
  obtain pre post where eq: "s = pre @ w @ post"
    using words_from_sublist [OF assms(1)] by auto
  hence "length s = length pre + length w + length post" by simp
  hence "pre = []" "post = []" using assms(2) by simp_all
  thus ?thesis using eq by simp
qed

lemma normalizer_flattens_selected_paths:
  assumes "i < length soup"
  shows "tag_name (fix_image_paths space soup ! i) = tag_name (soup ! i)
    \<and> (tag_name (soup ! i) = lit ''img'' \<longrightarrow>
          map_of (attrs (fix_image_paths space soup ! i)) (lit ''src'')
            = map_option basename (map_of (attrs (soup ! i)) (lit ''src'')))
    \<and> (is_stylesheet_link space (soup ! i) \<longrightarrow>
          map_of (attrs (fix_image_paths space soup ! i)) (lit ''href'')
            = map_option basename (map_of (attrs (soup ! i)) (lit ''href'')))
    \<and> (tag_name (soup ! i) = lit ''script'' \<longrightarrow>
          map_of (attrs (fix_image_paths space soup ! i)) (lit ''src'')
            = map_option basename (map_of (attrs (soup ! i)) (lit ''src'')))"
proof -
  have nth: "fix_image_paths space soup ! i = fix_script (fix_link space (fix_img (soup ! i)))"
    using assms by (rule fix_image_paths_nth)
  show ?thesis
    unfolding nth
    using fix_tag_img [of "soup ! i" space] fix_tag_link [of space "soup ! i"]
      fix_tag_script [of "soup ! i" space]
    by (simp add: fix_tag_name)
qed

section \<open>Facts about the Merge Order Resolver\<close>

lemma has_digit_underscore_Cons:
  "has_digit_underscore dv cs \<Longrightarrow> has_digit_underscore dv (c # cs)"
  by (cases cs) simp_all

lemma run_then_underscore:
  "takeWhile (isdigit dv) s \<noteq> [] \<Longrightarrow> take 1 (dropWhile (isdigit dv) s) = [ch (CHR ''_'')]
     \<Longrightarrow> has_digit_underscore dv s"
proof (induction dv s rule: has_digit_underscore.induct)
  case (1 dv)
  thus ?case by simp
next
  case (2 dv c)
  thus ?case by (simp split: if_splits)
next
  case (3 dv c d cs)
  show ?case
  proof (cases "isdigit dv d")
    case True
    thus ?thesis using 3 by (simp split: if_splits)
  next
    case False
    thus ?thesis using 3 by (simp split: if_splits)
  qed
qed

lemma match_has_digit_underscore:
  "match_digits_underscore dv s \<noteq> None \<Longrightarrow> has_digit_underscore dv s"
  using run_then_underscore [of dv s]
  by (simp add: match_digits_underscore_def Let_def split: if_splits)

lemma search_None:
  "\<not> has_digit_underscore dv s \<Longrightarrow> search_digits_underscore dv s = None"
proof (induction s)
  case Nil
  show ?case by (simp add: match_digits_underscore_def)
next
  case (Cons c cs)
  have "match_digits_underscore dv (c # cs) = None"
    using Cons.prems match_has_digit_underscore by blast
  moreover have "search_digits_underscore dv cs = None"
    using Cons has_digit_underscore_Cons by blast
  ultimately show ?case by simp
qed

lemma match_digit_run:
  assumes "\<forall>c\<in>set ds. isdigit dv c" and "ds \<noteq> []" and "\<not> isdigit dv (ch (CHR ''_''))"
  shows "match_digits_underscore dv (ds @ ch (CHR ''_'') # b) = Some ds"
proof -
  have "takeWhile (isdigit dv) (ds @ ch (CHR ''_'') # b) = ds"
    using assms(1,3) by simp
  moreover have "dropWhile (isdigit dv) (ds @ ch (CHR ''_'') # b) = ch (CHR ''_'') # b"
    using assms(1,3) by simp
  ultimately show ?thesis using assms(2) by (simp add: match_digits_underscore_def)
qed

lemma match_append:
  assumes "\<exists>x\<in>set s. \<not> isdigit dv x"
  shows "match_digits_underscore dv (s @ rest) = match_digits_underscore dv s"
proof -
  obtain x where x: "x \<in> set s" "\<not> isdigit dv x" using assms by blast
  have "takeWhile (isdigit dv) (s @ rest) = takeWhile (isdigit dv) s"
    using x by (rule takeWhile_append1)
  moreover have "dropWhile (isdigit dv) (s @ rest) = dropWhile (isdigit dv) s @ rest"
    using x by (rule dropWhile_append1)
  moreover have "dropWhile (isdigit dv) s \<noteq> []"
    using x by (auto simp: dropWhile_eq_Nil_conv)
  ultimately show ?thesis
    by (cases "dropWhile (isdigit dv) s") (simp_all add: match_digits_underscore_def)
qed

lemma search_first_group:
  assumes "\<not> isdigit dv (ch (CHR ''_''))" and "ds \<noteq> []" and "\<forall>c\<in>set ds. isdigit dv c"
    and "pre = [] \<or> \<not> isdigit dv (last pre)"
    and "\<not> has_digit_underscore dv pre"
  shows "search_digits_underscore dv (pre @ ds @ ch (CHR ''_'') # post) = Some ds"
  using assms(4,5)
proof (induction pre)
  case Nil
  obtain d ds' where ds: "ds = d # ds'" using assms(2) by (cases ds) auto
  have "match_digits_underscore dv (ds @ ch (CHR ''_'') # post) = Some ds"
    using match_digit_run [OF assms(3,2,1)] .
  thus ?case by (simp add: ds)
next
  case (Cons c pre)
  have nd: "\<exists>x\<in>set (c # pre). \<not> isdigit dv x"
    using Cons.prems(1) by (metis last_in_set list.discI)
  have "match_digits_underscore dv (c # pre) = None"
    using Cons.prems(2) match_has_digit_underscore by blast
  hence none: "match_digits_underscore dv ((c # pre) @ ds @ ch (CHR ''_'') # post) = None"
    using match_append [OF nd] by simp
  have "pre = [] \<or> \<not> isdigit dv (last pre)"
    using Cons.prems(1) by auto
  moreover have "\<not> has_digit_underscore dv pre"
    using Cons.prems(2) has_digit_underscore_Cons by blast
  ultimately have "search_digits_underscore dv (pre @ ds @ ch (CHR ''_'') # post) = Some ds"
    by (rule Cons.IH)
  thus ?case using none by simp
qed

lemma has_digit_underscore_search:
  assumes "\<not> isdigit dv (ch (CHR ''_''))" and "has_digit_underscore dv s"
  shows "search_digits_underscore dv s \<noteq> None"
  using assms(2)
proof (induction s)
  case Nil
  thus ?case by simp
next
  case (Cons c cs)
  show ?case
  proof (cases "match_digits_underscore dv (c # cs)")
    case (Some run)
    thus ?thesis by simp
  next
    case None
    have "has_digit_underscore dv cs"
    proof (cases cs)
      case Nil
      thus ?thesis using Cons.prems by simp
    next
      case (Cons d ds)
      have "\<not> (isdigit dv c \<and> d = ch (CHR ''_''))"
      proof
        assume h: "isdigit dv c \<and> d = ch (CHR ''_'')"
        hence "match_digits_underscore dv ([c] @ ch (CHR ''_'') # ds) = Some [c]"
          using match_digit_run [of "[c]" dv ds] assms(1) by simp
        thus False using None h Cons by simp
      qed
      thus ?thesis using Cons.prems Cons by auto
    qed
    thus ?thesis using Cons.IH None by simp
  qed
qed

lemma int_of_ascii_digits:
  assumes "\<forall>d<10. dv (48 + d) = Some d" and "\<forall>c\<in>set s. ascii_digit c"
  shows "int_of_digits dv s = ascii_number s"
proof -
  have val: "(case dv c of None \<Rightarrow> 0 | Some d \<Rightarrow> int d) = int c - 48" if "ascii_digit c" for c
  proof -
    have "c - 48 < 10" "c = 48 + (c - 48)" using that by (auto simp: ascii_digit_def)
    hence "dv c = Some (c - 48)" using assms(1) by metis
    thus ?thesis using that by (simp add: ascii_digit_def)
  qed
  have "foldl (\<lambda>a c. 10 * a + (case dv c of None \<Rightarrow> 0 | Some d \<Rightarrow> int d)) a s
          = foldl (\<lambda>a c. 10 * a + (int c - 48)) a s" for a
    using assms(2) by (induction s arbitrary: a) (simp_all add: val)
  thus ?thesis by (simp add: int_of_digits_def ascii_number_def)
qed

lemma ascii_digits_are_digits:
  assumes "\<forall>d<10. dv (48 + d) = Some d" and "ascii_digit c"
  shows "isdigit dv c"
proof -
  have "c - 48 < 10" "c = 48 + (c - 48)" using assms(2) by (auto simp: ascii_digit_def)
  hence "dv c = Some (c - 48)" using assms(1) by metis
  thus ?thesis by (simp add: isdigit_def)
qed

lemma dec_nonempty: "dec n \<noteq> []"
  by (subst dec.simps) simp

lemma fmt04d_nonempty: "fmt04d r \<noteq> []"
  by (simp add: fmt04d_def zfill_def dec_nonempty)

lemma fmt04d_digits: "0 \<le> r \<Longrightarrow> \<forall>c\<in>set (fmt04d r). ascii_digit c"
  using zfill_digits [of 4 "nat r"] by (simp add: fmt04d_nonneg)

lemma ascii_number_fmt04d: "0 \<le> r \<Longrightarrow> ascii_number (fmt04d r) = r"
  by (simp add: fmt04d_nonneg ascii_number_zfill)

lemma sorted_split:
  "sorted (map f xs) \<Longrightarrow> xs = filter (\<lambda>x. f x < k) xs @ filter (\<lambda>x. \<not> f x < k) xs"
  for f :: "'a \<Rightarrow> int"
proof (induction xs)
  case Nil
  show ?case by simp
next
  case (Cons x xs)
  show ?case
  proof (cases "f x < k")
    case True
    thus ?thesis using Cons by simp
  next
    case False
    hence "\<forall>y\<in>set xs. \<not> f y < k" using Cons.prems by auto
    hence "filter (\<lambda>x. f x < k) xs = []" "filter (\<lambda>x. \<not> f x < k) xs = xs"
      by (simp_all add: filter_empty_conv)
    thus ?thesis using False by simp
  qed
qed

lemma sort_key_decorated:
  "map snd (sort_key fst (map (\<lambda>x. (f x, x)) xs)) = sort_key f xs"
  for f :: "'a \<Rightarrow> int"
proof -
  have ins: "map snd (insort_key fst (f x, x) ys) = insort_key f x (map snd ys)"
    if "\<forall>p\<in>set ys. fst p = f (snd p)" for x ys
    using that by (induction ys) auto
  show ?thesis
  proof (induction xs)
    case Nil
    show ?case by simp
  next
    case (Cons x xs)
    have "\<forall>p\<in>set (sort_key fst (map (\<lambda>x. (f x, x)) xs)). fst p = f (snd p)" by auto
    thus ?case using Cons ins by simp
  qed
qed

lemma keyed_all:
  "\<forall>x\<in>set xs. search_digits_underscore dv (basename x) \<noteq> None \<Longrightarrow>
     keyed dv xs = Inr (map (\<lambda>x. (extract_number dv x, x)) xs)"
  by (induction xs) (auto simp: numeric_prefix_def extract_number_def)

lemma sort_key_listing_order:
  fixes f :: "'a \<Rightarrow> int"
  assumes "mset xs = mset ys" and "inj_on f (set xs)"
  shows "sort_key f xs = sort_key f ys"
proof -
  have sets: "set ys = set xs" using assms(1) by (metis set_mset_mset)
  have "mset (map f (sort_key f xs)) = mset (map f (sort_key f ys))"
    using assms(1) by simp
  moreover have "sorted (map f (sort_key f xs))" "sorted (map f (sort_key f ys))"
    by simp_all
  ultimately have "map f (sort_key f xs) = map f (sort_key f ys)"
    by (metis properties_for_sort sorted_sort_id)
  moreover have "inj_on f (set (sort_key f xs) \<union> set (sort_key f ys))"
    using assms(2) sets by simp
  ultimately show ?thesis by (simp add: inj_on_map_eq_map)
qed

lemma basename_no_slash: "ch (CHR ''/'') \<notin> set s \<Longrightarrow> basename s = s"
proof -
  assume "ch (CHR ''/'') \<notin> set s"
  hence "\<forall>c\<in>set (rev s). c \<noteq> ch (CHR ''/'')" by auto
  hence "takeWhile (\<lambda>c. c \<noteq> ch (CHR ''/'')) (rev s) = rev s"
    by (intro takeWhile_eq_all_conv [THEN iffD2]) simp
  thus ?thesis by (simp only: basename_def rev_rev_ident)
qed

lemma ascii_digit_not_slash: "ascii_digit c \<Longrightarrow> c \<noteq> ch (CHR ''/'')"
  by (auto simp: ascii_digit_def)

section \<open>Claims about the Sequencer\<close>

text \<open>
  C1, as the code has it. For every TOC reference sequence and every extraction tree in
  which no existing reference is a directory, the Sequencer collapses the duplicates that
  are neighbours among the existing references: it emits, in TOC order, the first member
  of every run of existing references with equal basenames (\<open>collapse_runs\<close>, which on
  the basenames is \<open>remdups_adj\<close>), numbered \<open>1, 2, ...\<close> without gaps, and raises
  nothing. So a reference whose basename equals that of the document emitted last is
  skipped and takes no rank, also when dangling references stand in between, and a
  basename that comes back after a different existing basename gets a new rank. In
  particular the TOC order \<open>[a, a, b, a]\<close>, for existing files \<open>a\<close> and \<open>b\<close> with
  different basenames, gives exactly three documents: \<open>a\<close> at rank 1, \<open>b\<close> at rank 2 and
  \<open>a\<close> at rank 3.
\<close>

theorem sequencer_collapses_neighbours_among_existing:
  "((\<forall>r\<in>set refs. fs (join extraction_dir r) \<noteq> Some Directory) \<longrightarrow>
      copy_files_in_order fs refs
        = (ranked_from 1 (collapse_runs basename
             (filter (\<lambda>r. path_exists fs (join extraction_dir r)) refs)), None))
   \<and> map basename (collapse_runs basename existing) = remdups_adj (map basename existing)
   \<and> map rank (ranked_from 1 existing) = [1..int (length existing)]
   \<and> (fs (join extraction_dir a) = Some (RegularFile ca)
        \<and> fs (join extraction_dir b) = Some (RegularFile cb)
        \<and> basename a \<noteq> basename b \<longrightarrow>
      copy_files_in_order fs [a, a, b, a]
        = ([\<lparr>source_path = join extraction_dir a, rank = 1,
              output_filename = lit ''0001_'' @ basename a\<rparr>,
            \<lparr>source_path = join extraction_dir b, rank = 2,
              output_filename = lit ''0002_'' @ basename b\<rparr>,
            \<lparr>source_path = join extraction_dir a, rank = 3,
              output_filename = lit ''0003_'' @ basename a\<rparr>], None))"
proof (intro conjI impI)
  assume "\<forall>r\<in>set refs. fs (join extraction_dir r) \<noteq> Some Directory"
  thus "copy_files_in_order fs refs
          = (ranked_from 1 (collapse_runs basename
               (filter (\<lambda>r. path_exists fs (join extraction_dir r)) refs)), None)"
    by (simp add: copy_files_in_order_def copy_loop_spec collapse_after_None)
next
  show "map basename (collapse_runs basename existing) = remdups_adj (map basename existing)"
    by (rule collapse_runs_keys)
  show "map rank (ranked_from 1 existing) = [1..int (length existing)]"
    by (simp add: ranked_from_ranks)
next
  assume "fs (join extraction_dir a) = Some (RegularFile ca)
        \<and> fs (join extraction_dir b) = Some (RegularFile cb)
        \<and> basename a \<noteq> basename b"
  thus "copy_files_in_order fs [a, a, b, a]
          = ([\<lparr>source_path = join extraction_dir a, rank = 1,
                output_filename = lit ''0001_'' @ basename a\<rparr>,
              \<lparr>source_path = join extraction_dir b, rank = 2,
                output_filename = lit ''0002_'' @ basename b\<rparr>,
              \<lparr>source_path = join extraction_dir a, rank = 3,
                output_filename = lit ''0003_'' @ basename a\<rparr>], None)"
    by (auto simp: copy_files_in_order_def path_exists_def copyfile_def fmt04d_1 fmt04d_2 fmt04d_3
        Let_def)
qed

theorem sequencer_collapses_neighbours_among_existing_witness:
  "copy_files_in_order
     [lit ''extractedCHM/a.htm'' \<mapsto> RegularFile ''A'',
      lit ''extractedCHM/sub/a.htm'' \<mapsto> RegularFile ''A2'',
      lit ''extractedCHM/b.htm'' \<mapsto> RegularFile ''B'']
     [lit ''a.htm'', lit ''sub/a.htm'', lit ''gone.htm'', lit ''a.htm'', lit ''b.htm'', lit ''a.htm'']
     = ([\<lparr>source_path = lit ''extractedCHM/a.htm'', rank = 1,
           output_filename = lit ''0001_a.htm''\<rparr>,
         \<lparr>source_path = lit ''extractedCHM/b.htm'', rank = 2,
           output_filename = lit ''0002_b.htm''\<rparr>,
         \<lparr>source_path = lit ''extractedCHM/a.htm'', rank = 3,
           output_filename = lit ''0003_a.htm''\<rparr>], None)
   \<and> copy_files_in_order
     [lit ''extractedCHM/a.htm'' \<mapsto> RegularFile ''A'',
      lit ''extractedCHM/sub/a.htm'' \<mapsto> RegularFile ''A2'',
      lit ''extractedCHM/b.htm'' \<mapsto> RegularFile ''B'']
     [lit ''a.htm'', lit ''a.htm'', lit ''b.htm'', lit ''a.htm'']
     = ([\<lparr>source_path = lit ''extractedCHM/a.htm'', rank = 1,
           output_filename = lit ''0001_a.htm''\<rparr>,
         \<lparr>source_path = lit ''extractedCHM/b.htm'', rank = 2,
           output_filename = lit ''0002_b.htm''\<rparr>,
         \<lparr>source_path = lit ''extractedCHM/a.htm'', rank = 3,
           output_filename = lit ''0003_a.htm''\<rparr>], None)"
proof -
  let ?fs = "[lit ''extractedCHM/a.htm'' \<mapsto> RegularFile ''A'',
      lit ''extractedCHM/sub/a.htm'' \<mapsto> RegularFile ''A2'',
      lit ''extractedCHM/b.htm'' \<mapsto> RegularFile ''B'']"
  let ?refs = "[lit ''a.htm'', lit ''sub/a.htm'', lit ''gone.htm'', lit ''a.htm'', lit ''b.htm'',
      lit ''a.htm'']"
  note inst = sequencer_collapses_neighbours_among_existing
    [of ?refs ?fs "[]" "lit ''a.htm''" "''A''" "lit ''b.htm''" "''B''"]
  have nodirs: "\<forall>r\<in>set ?refs. ?fs (join extraction_dir r) \<noteq> Some Directory"
    by (simp add: join_def extraction_dir_def)
  have "copy_files_in_order ?fs ?refs
          = (ranked_from 1 (collapse_runs basename
               (filter (\<lambda>r. path_exists ?fs (join extraction_dir r)) ?refs)), None)"
    using inst nodirs by blast
  hence first: "copy_files_in_order ?fs ?refs
     = ([\<lparr>source_path = lit ''extractedCHM/a.htm'', rank = 1,
           output_filename = lit ''0001_a.htm''\<rparr>,
         \<lparr>source_path = lit ''extractedCHM/b.htm'', rank = 2,
           output_filename = lit ''0002_b.htm''\<rparr>,
         \<lparr>source_path = lit ''extractedCHM/a.htm'', rank = 3,
           output_filename = lit ''0003_a.htm''\<rparr>], None)"
    by (simp add: join_def extraction_dir_def basename_def path_exists_def
        fmt04d_1 fmt04d_2 fmt04d_3)
  have "?fs (join extraction_dir (lit ''a.htm'')) = Some (RegularFile ''A'')
      \<and> ?fs (join extraction_dir (lit ''b.htm'')) = Some (RegularFile ''B'')
      \<and> basename (lit ''a.htm'') \<noteq> basename (lit ''b.htm'')"
    by (simp add: join_def extraction_dir_def basename_def)
  hence "copy_files_in_order ?fs [lit ''a.htm'', lit ''a.htm'', lit ''b.htm'', lit ''a.htm'']
      = ([\<lparr>source_path = join extraction_dir (lit ''a.htm''), rank = 1,
            output_filename = lit ''0001_'' @ basename (lit ''a.htm'')\<rparr>,
          \<lparr>source_path = join extraction_dir (lit ''b.htm''), rank = 2,
            output_filename = lit ''0002_'' @ basename (lit ''b.htm'')\<rparr>,
          \<lparr>source_path = join extraction_dir (lit ''a.htm''), rank = 3,
            output_filename = lit ''0003_'' @ basename (lit ''a.htm'')\<rparr>], None)"
    using inst by blast
  hence second: "copy_files_in_order ?fs [lit ''a.htm'', lit ''a.htm'', lit ''b.htm'', lit ''a.htm'']
     = ([\<lparr>source_path = lit ''extractedCHM/a.htm'', rank = 1,
           output_filename = lit ''0001_a.htm''\<rparr>,
         \<lparr>source_path = lit ''extractedCHM/b.htm'', rank = 2,
           output_filename = lit ''0002_b.htm''\<rparr>,
         \<lparr>source_path = lit ''extractedCHM/a.htm'', rank = 3,
           output_filename = lit ''0003_a.htm''\<rparr>], None)"
    by (simp add: join_def extraction_dir_def basename_def)
  show ?thesis using first second by (rule conjI)
qed

text \<open>
  The claim as it is worded fails in two ways. A basename that comes back after
  dangling references only is collapsed, although the two occurrences are not
  neighbours in the TOC sequence; and a reference that names a directory (the empty
  reference left by a value that is only a fragment names the extraction root) ends
  the pass with \<open>IsADirectoryError\<close>, so that a later basename gets no rank.
\<close>

theorem sequencer_collapse_counterexample:
  "copy_files_in_order [lit ''extractedCHM/intro.htm'' \<mapsto> RegularFile ''I'']
      [lit ''intro.htm'', lit ''gone.htm'', lit ''intro.htm'']
     = ([\<lparr>source_path = lit ''extractedCHM/intro.htm'', rank = 1,
           output_filename = lit ''0001_intro.htm''\<rparr>], None)
   \<and> copy_files_in_order
      [lit ''extractedCHM/'' \<mapsto> Directory,
       lit ''extractedCHM/a.htm'' \<mapsto> RegularFile ''A'',
       lit ''extractedCHM/b.htm'' \<mapsto> RegularFile ''B'']
      [lit ''a.htm'', lit ''b.htm'', lit '''', lit ''a.htm'']
     = ([\<lparr>source_path = lit ''extractedCHM/a.htm'', rank = 1,
           output_filename = lit ''0001_a.htm''\<rparr>,
         \<lparr>source_path = lit ''extractedCHM/b.htm'', rank = 2,
           output_filename = lit ''0002_b.htm''\<rparr>], Some IsADirectoryError)"
  by (simp add: copy_files_in_order_def join_def extraction_dir_def basename_def
      path_exists_def copyfile_def fmt04d_1 fmt04d_2 Let_def)

text \<open>
  C2. For every TOC reference sequence and every extraction tree, the ranks of the
  emitted documents are exactly \<open>1, 2, ..., N\<close>, where \<open>N\<close> is the number of emitted
  documents; every output file name is the rank formatted with \<open>04d\<close>, an underscore and
  the basename; and no two emitted documents have the same output file name.
\<close>

theorem sequencer_ranks_dense_and_names_unique:
  "map rank (fst (copy_files_in_order fs refs))
     = [1..int (length (fst (copy_files_in_order fs refs)))]
   \<and> map output_filename (fst (copy_files_in_order fs refs))
     = map (\<lambda>d. fmt04d (rank d) @ lit ''_'' @ basename (source_path d))
         (fst (copy_files_in_order fs refs))
   \<and> distinct (map output_filename (fst (copy_files_in_order fs refs)))"
proof (intro conjI)
  show "map rank (fst (copy_files_in_order fs refs))
          = [1..int (length (fst (copy_files_in_order fs refs)))]"
    using copy_loop_ranks [of fs None 1 refs] by (simp add: copy_files_in_order_def)
  show "map output_filename (fst (copy_files_in_order fs refs))
          = map (\<lambda>d. fmt04d (rank d) @ lit ''_'' @ basename (source_path d))
              (fst (copy_files_in_order fs refs))"
    unfolding copy_files_in_order_def by (rule copy_loop_names)
  show "distinct (map output_filename (fst (copy_files_in_order fs refs)))"
    unfolding copy_files_in_order_def by (rule copy_loop_distinct) simp
qed



text \<open>
  C9. Skipping a dangling reference does not reset the duplicate-collapse state: for the
  TOC order \<open>[a, m, a]\<close>, where \<open>a\<close> is an existing file and \<open>m\<close> does not exist, the
  second \<open>a\<close> is collapsed and the only emitted document is \<open>a\<close> at rank 1.
\<close>

theorem sequencer_dangling_keeps_collapse_state:
  assumes "fs (join extraction_dir a) = Some (RegularFile c)"
    and "\<not> path_exists fs (join extraction_dir m)"
  shows "copy_files_in_order fs [a, m, a]
           = ([\<lparr>source_path = join extraction_dir a, rank = 1,
                 output_filename = lit ''0001_'' @ basename a\<rparr>], None)"
  using assms
  by (simp add: copy_files_in_order_def path_exists_def copyfile_def fmt04d_1 Let_def)

theorem sequencer_dangling_keeps_collapse_state_witness:
  "copy_files_in_order [lit ''extractedCHM/a.htm'' \<mapsto> RegularFile ''A'']
      [lit ''a.htm'', lit ''m.htm'', lit ''a.htm'']
     = ([\<lparr>source_path = lit ''extractedCHM/a.htm'', rank = 1,
           output_filename = lit ''0001_a.htm''\<rparr>],
        None)"
  using sequencer_dangling_keeps_collapse_state
    [of "[lit ''extractedCHM/a.htm'' \<mapsto> RegularFile ''A'']" "lit ''a.htm''" "''A''"
        "lit ''m.htm''"]
  by (simp add: join_def extraction_dir_def basename_def path_exists_def)

section \<open>Claims about asset flattening\<close>

text \<open>
  C7. The asset-flattening pass is idempotent: for every state of the document
  directory, running the pass a second time leaves the directory exactly as the first
  run left it, because every destination the second run would write already exists;
  and no entry of the directory is lost by the pass.
\<close>

theorem flattening_idempotent:
  "copy_assets_to_flat_structure lower copy_fails (copy_assets_to_flat_structure lower copy_fails toplevel)
     = copy_assets_to_flat_structure lower copy_fails toplevel
   \<and> set toplevel \<subseteq> set (copy_assets_to_flat_structure lower copy_fails toplevel)"
proof
  let ?once = "foldl (step lower copy_fails) toplevel (sub_visited toplevel)"
  obtain added where shape: "?once = toplevel @ added"
    and files: "\<forall>n\<in>set added. \<exists>name content. n = File name content"
    using fold_shape by blast
  have same: "sub_visited ?once = sub_visited toplevel"
    using sub_visited_append_files [OF files] shape by simp
  have "foldl (step lower copy_fails) ?once (sub_visited toplevel) = ?once"
    by (rule fold_fixed) (rule fold_covers)
  thus "copy_assets_to_flat_structure lower copy_fails
          (copy_assets_to_flat_structure lower copy_fails toplevel)
        = copy_assets_to_flat_structure lower copy_fails toplevel"
    by (simp add: pass_sub_visited same)
  show "set toplevel \<subseteq> set (copy_assets_to_flat_structure lower copy_fails toplevel)"
    using shape by (simp add: pass_sub_visited)
qed

text \<open>
  C10. The pass never overwrites or changes what is already at the top level: the old
  listing is a prefix of the new one, and a name that was present still denotes the same
  node. For a name that was absent, the new top-level file is the copy of the first
  visited file of that name that the pass may copy (a non-document file below the top
  level whose copy does not raise); every later file of that name is dropped, so a
  listing without repeated names stays without repeated names.
\<close>

theorem flattening_first_wins_and_keeps_existing:
  "take (length toplevel) (copy_assets_to_flat_structure lower copy_fails toplevel) = toplevel
   \<and> top_lookup (copy_assets_to_flat_structure lower copy_fails toplevel) fname
        = (case top_lookup toplevel fname of
             Some n \<Rightarrow> Some n
           | None \<Rightarrow>
               map_option (\<lambda>(root, name, content). File name content)
                 (find (\<lambda>(root, name, content).
                          name = fname \<and> eligible lower copy_fails (root, name, content))
                    (visited toplevel)))
   \<and> (distinct (map node_name toplevel) \<longrightarrow>
        distinct (map node_name (copy_assets_to_flat_structure lower copy_fails toplevel)))"
proof (intro conjI impI)
  obtain added where shape:
    "foldl (step lower copy_fails) toplevel (sub_visited toplevel) = toplevel @ added"
    using fold_shape by blast
  thus "take (length toplevel) (copy_assets_to_flat_structure lower copy_fails toplevel) = toplevel"
    by (simp add: pass_sub_visited)
  show "top_lookup (copy_assets_to_flat_structure lower copy_fails toplevel) fname
        = (case top_lookup toplevel fname of
             Some n \<Rightarrow> Some n
           | None \<Rightarrow>
               map_option (\<lambda>(root, name, content). File name content)
                 (find (\<lambda>(root, name, content).
                          name = fname \<and> eligible lower copy_fails (root, name, content))
                    (visited toplevel)))"
    by (cases "top_lookup toplevel fname")
      (simp_all add: pass_sub_visited fold_lookup visited_split find_skip_top)
next
  assume "distinct (map node_name toplevel)"
  thus "distinct (map node_name (copy_assets_to_flat_structure lower copy_fails toplevel))"
    by (simp add: pass_sub_visited fold_distinct)
qed

theorem flattening_first_wins_and_keeps_existing_witness:
  "copy_assets_to_flat_structure (map (\<lambda>c. if 65 \<le> c \<and> c \<le> 90 then c + 32 else c))
     (\<lambda>root fname. False)
     [File (lit ''logo.png'') ''TOP'',
      Dir (lit ''img'') [File (lit ''pic.png'') ''FIRST'', File (lit ''logo.png'') ''OTHER''],
      Dir (lit ''css'') [File (lit ''pic.png'') ''SECOND'']]
   = [File (lit ''logo.png'') ''TOP'',
      Dir (lit ''img'') [File (lit ''pic.png'') ''FIRST'', File (lit ''logo.png'') ''OTHER''],
      Dir (lit ''css'') [File (lit ''pic.png'') ''SECOND''],
      File (lit ''pic.png'') ''FIRST'']
   \<and> top_lookup (copy_assets_to_flat_structure
        (map (\<lambda>c. if 65 \<le> c \<and> c \<le> 90 then c + 32 else c)) (\<lambda>root fname. False)
        [File (lit ''logo.png'') ''TOP'',
         Dir (lit ''img'') [File (lit ''pic.png'') ''FIRST'', File (lit ''logo.png'') ''OTHER''],
         Dir (lit ''css'') [File (lit ''pic.png'') ''SECOND'']]) (lit ''pic.png'')
     = Some (File (lit ''pic.png'') ''FIRST'')
   \<and> top_lookup (copy_assets_to_flat_structure
        (map (\<lambda>c. if 65 \<le> c \<and> c \<le> 90 then c + 32 else c)) (\<lambda>root fname. False)
        [File (lit ''logo.png'') ''TOP'',
         Dir (lit ''img'') [File (lit ''pic.png'') ''FIRST'', File (lit ''logo.png'') ''OTHER''],
         Dir (lit ''css'') [File (lit ''pic.png'') ''SECOND'']]) (lit ''logo.png'')
     = Some (File (lit ''logo.png'') ''TOP'')"
proof -
  let ?lw = "map (\<lambda>c. if 65 \<le> c \<and> c \<le> 90 then c + 32 else c) :: str \<Rightarrow> str"
  let ?t = "[File (lit ''logo.png'') ''TOP'',
      Dir (lit ''img'') [File (lit ''pic.png'') ''FIRST'', File (lit ''logo.png'') ''OTHER''],
      Dir (lit ''css'') [File (lit ''pic.png'') ''SECOND'']]"
  have d: "distinct (map node_name ?t)" by simp
  have eval: "copy_assets_to_flat_structure ?lw (\<lambda>root fname. False) ?t
                = ?t @ [File (lit ''pic.png'') ''FIRST'']"
    by (simp add: copy_assets_to_flat_structure_def walk_def copy_asset_def top_exists_def
        is_document_name_def endswith_def)
  note inst = flattening_first_wins_and_keeps_existing [of ?t ?lw "\<lambda>root fname. False"]
  have "top_lookup (copy_assets_to_flat_structure ?lw (\<lambda>root fname. False) ?t) (lit ''pic.png'')
          = (case top_lookup ?t (lit ''pic.png'') of
               Some n \<Rightarrow> Some n
             | None \<Rightarrow>
                 map_option (\<lambda>(root, name, content). File name content)
                   (find (\<lambda>(root, name, content).
                            name = lit ''pic.png''
                            \<and> eligible ?lw (\<lambda>root fname. False) (root, name, content))
                      (visited ?t)))"
    using inst [of "lit ''pic.png''"] by blast
  hence pic: "top_lookup (copy_assets_to_flat_structure ?lw (\<lambda>root fname. False) ?t) (lit ''pic.png'')
          = Some (File (lit ''pic.png'') ''FIRST'')"
    by (simp add: visited_def walk_def top_lookup_def eligible_def is_document_name_def
        endswith_def)
  note pic
  moreover have "distinct (map node_name (copy_assets_to_flat_structure ?lw (\<lambda>root fname. False) ?t))"
    using inst [of "lit ''pic.png''"] d by blast
  moreover have "top_lookup (copy_assets_to_flat_structure ?lw (\<lambda>root fname. False) ?t) (lit ''logo.png'')
          = Some (File (lit ''logo.png'') ''TOP'')"
  proof -
    have "top_lookup (copy_assets_to_flat_structure ?lw (\<lambda>root fname. False) ?t) (lit ''logo.png'')
          = (case top_lookup ?t (lit ''logo.png'') of
               Some n \<Rightarrow> Some n
             | None \<Rightarrow>
                 map_option (\<lambda>(root, name, content). File name content)
                   (find (\<lambda>(root, name, content).
                            name = lit ''logo.png''
                            \<and> eligible ?lw (\<lambda>root fname. False) (root, name, content))
                      (visited ?t)))"
      using inst [of "lit ''logo.png''"] by blast
    thus ?thesis by (simp add: top_lookup_def)
  qed
  ultimately show ?thesis using eval by simp
qed

section \<open>Claims about the TOC Parser and the Asset Path Normalizer\<close>

text \<open>
  C6. The TOC Parser is to return a sequence of strings for every input, also when a
  \<open>param\<close> tag named \<open>Local\<close> has no \<open>value\<close> attribute. The parser of
  \<open>HTMLOrganizer\<close> does (\<open>parse_hhc_file_total\<close>, \<open>parse_hhc_file_no_match\<close>), and on
  the same tags the two parsers agree when every matching tag has a value
  (\<open>parsers_agree_loop\<close>). The
  parse section of the generated \<open>orderHTM.py\<close> does not: on the single tag
  \<open><param name="Local">\<close> it raises \<open>KeyError\<close>, where the other parser returns the
  empty sequence. (All that is used of \<open>str.lower\<close> is that it turns \<open>Local\<close> into
  \<open>local\<close>.)
\<close>

theorem generated_toc_parser_raises_without_value:
  assumes "lower (lit ''Local'') = lit ''local''"
  shows "html_files_ordered_sanitized lower
           [\<lparr>tag_name = lit ''param'', attrs = [(lit ''name'', lit ''Local'')]\<rparr>]
           = Inl KeyError
    \<and> parse_hhc_file lower
           [\<lparr>tag_name = lit ''param'', attrs = [(lit ''name'', lit ''Local'')]\<rparr>]
           = Inr []"
  using assms
  by (simp add: html_files_ordered_sanitized_def parse_hhc_file_def find_all_local_params_def
      is_local_param_def getitem_def)

theorem generated_toc_parser_raises_without_value_witness:
  "html_files_ordered_sanitized (map (\<lambda>c. if 65 \<le> c \<and> c \<le> 90 then c + 32 else c))
     [\<lparr>tag_name = lit ''param'', attrs = [(lit ''name'', lit ''Local'')]\<rparr>]
     = Inl KeyError
   \<and> parse_hhc_file (map (\<lambda>c. if 65 \<le> c \<and> c \<le> 90 then c + 32 else c))
     [\<lparr>tag_name = lit ''param'', attrs = [(lit ''name'', lit ''Local'')]\<rparr>]
     = Inr []"
  using generated_toc_parser_raises_without_value
    [of "map (\<lambda>c. if 65 \<le> c \<and> c \<le> 90 then c + 32 else c)"]
  by simp

text \<open>
  C8. Every image \<open>src\<close>, stylesheet link \<open>href\<close> and script \<open>src\<close> is to become its
  final path segment. The Normalizer does so for the tags its three loops select
  (\<open>normalizer_flattens_selected_paths\<close>, \<open>basename_no_sep\<close>), but the second loop asks
  the markup library for links whose \<open>rel\<close> has the word \<open>stylesheet\<close> in exactly this
  letter case: a stylesheet link written \<open><link rel="Stylesheet" href="css/a.css">\<close> is
  returned as it was, with its directory in place, whatever the white space characters
  are. And \<open>os.path.basename\<close> splits at the slash only, so an image path written with
  backslashes (code point 92) is returned whole as well.
\<close>

theorem normalizer_misses_capitalised_stylesheet_link:
  "fix_image_paths space
     [\<lparr>tag_name = lit ''link'',
        attrs = [(lit ''rel'', lit ''Stylesheet''), (lit ''href'', lit ''css/a.css'')]\<rparr>]
     = [\<lparr>tag_name = lit ''link'',
          attrs = [(lit ''rel'', lit ''Stylesheet''), (lit ''href'', lit ''css/a.css'')]\<rparr>]
   \<and> ch (CHR ''/'') \<in> set (lit ''css/a.css'')
   \<and> fix_image_paths space
     [\<lparr>tag_name = lit ''img'', attrs = [(lit ''src'', lit ''images'' @ [92] @ lit ''pic.png'')]\<rparr>]
     = [\<lparr>tag_name = lit ''img'', attrs = [(lit ''src'', lit ''images'' @ [92] @ lit ''pic.png'')]\<rparr>]"
proof -
  have "lit ''stylesheet'' \<notin> set (words_from space [] (lit ''Stylesheet''))"
  proof
    assume "lit ''stylesheet'' \<in> set (words_from space [] (lit ''Stylesheet''))"
    hence "lit ''stylesheet'' = lit ''Stylesheet''"
      by (rule words_from_whole) simp
    thus False by simp
  qed
  hence "\<not> is_stylesheet_link space
           \<lparr>tag_name = lit ''link'',
            attrs = [(lit ''rel'', lit ''Stylesheet''), (lit ''href'', lit ''css/a.css'')]\<rparr>"
    by (simp add: is_stylesheet_link_def)
  thus ?thesis
    by (simp add: fix_image_paths_def fix_img_def fix_link_def fix_script_def
        is_stylesheet_link_def flatten_attr_def setitem_def basename_def)
qed

text \<open>
  C5. A failure on one document is to leave the rest of the batch processed. The
  executor of \<open>HTMLProcessor.process_all\<close> does so: it returns one result for every file
  (\<open>executor_map_length\<close>) and each file of the batch is rewritten exactly when its own
  processing succeeds (\<open>executor_map_each\<close>). The loop of \<open>removeText.py\<close> does not: on
  a batch of two documents of which the first cannot be processed it ends with the
  exception and leaves the second document as it was, where the executor reports
  \<open>[False, True]\<close> and rewrites the second document.
\<close>

theorem removeText_loop_aborts_on_first_failure:
  "fst (removeText_loop (\<lambda>raw. if raw = ''bad'' then Inl UnicodeDecodeError else Inr (raw @ ''!''))
          [lit ''reorganized/0001_a.htm'' \<mapsto> ''bad'', lit ''reorganized/0002_b.htm'' \<mapsto> ''good'']
          [lit ''reorganized/0001_a.htm'', lit ''reorganized/0002_b.htm''])
     = Some UnicodeDecodeError
   \<and> snd (removeText_loop (\<lambda>raw. if raw = ''bad'' then Inl UnicodeDecodeError else Inr (raw @ ''!''))
          [lit ''reorganized/0001_a.htm'' \<mapsto> ''bad'', lit ''reorganized/0002_b.htm'' \<mapsto> ''good'']
          [lit ''reorganized/0001_a.htm'', lit ''reorganized/0002_b.htm''])
        (lit ''reorganized/0002_b.htm'')
     = Some ''good''
   \<and> fst (process_files (\<lambda>raw. if raw = ''bad'' then Inl UnicodeDecodeError else Inr (raw @ ''!''))
          [lit ''reorganized/0001_a.htm'' \<mapsto> ''bad'', lit ''reorganized/0002_b.htm'' \<mapsto> ''good'']
          [lit ''reorganized/0001_a.htm'', lit ''reorganized/0002_b.htm''])
     = True
   \<and> fst (snd (process_files (\<lambda>raw. if raw = ''bad'' then Inl UnicodeDecodeError else Inr (raw @ ''!''))
          [lit ''reorganized/0001_a.htm'' \<mapsto> ''bad'', lit ''reorganized/0002_b.htm'' \<mapsto> ''good'']
          [lit ''reorganized/0001_a.htm'', lit ''reorganized/0002_b.htm'']))
     = [False, True]
   \<and> snd (snd (process_files (\<lambda>raw. if raw = ''bad'' then Inl UnicodeDecodeError else Inr (raw @ ''!''))
          [lit ''reorganized/0001_a.htm'' \<mapsto> ''bad'', lit ''reorganized/0002_b.htm'' \<mapsto> ''good'']
          [lit ''reorganized/0001_a.htm'', lit ''reorganized/0002_b.htm'']))
        (lit ''reorganized/0002_b.htm'')
     = Some ''good!''"
  by (simp add: process_files_def process_single_file_def remove_show_framing_def)

section \<open>Claims about the Merge Order Resolver\<close>

text \<open>
  C3, as the code has it. Whatever the order of the listing, \<open>combinePDFs.py\<close> merges
  the PDFs of the listing in an order that is a rearrangement of them, ascending in
  \<open>extract_number\<close>, with names of equal number in listing order; two listings of the
  same names give the same order when no two names share a number. \<open>extract_number\<close> of a
  name is the integer of the first run of digits that is followed by an underscore,
  wherever in the basename it stands; without such a run, the integer of the digits the
  basename starts with; and without those, 999999. So a name \<open>rank:04d_basename\<close> gets
  its rank back, a name with no digit gets 999999, the names numbered below 999999 all
  come before the others, and nothing raises. \<open>CloudPDFConverter.combine_pdfs\<close> produces
  the same order when there is at least one PDF and every basename has a digit followed
  by an underscore.
\<close>

theorem merge_order_by_extracted_number:
  "sorted (map (extract_number decimal) (pdf_files_sorted decimal listing))
   \<and> mset (pdf_files_sorted decimal listing) = mset (pdf_files listing)
   \<and> filter (\<lambda>x. extract_number decimal x = k) (pdf_files_sorted decimal listing)
        = filter (\<lambda>x. extract_number decimal x = k) (pdf_files listing)
   \<and> (mset listing' = mset listing
        \<and> inj_on (extract_number decimal) (set (pdf_files listing)) \<longrightarrow>
        pdf_files_sorted decimal listing' = pdf_files_sorted decimal listing)
   \<and> (decimal (ch (CHR ''_'')) = None
        \<and> basename f1 = pre @ ds @ ch (CHR ''_'') # post
        \<and> ds \<noteq> [] \<and> (\<forall>c\<in>set ds. isdigit decimal c)
        \<and> (pre = [] \<or> \<not> isdigit decimal (last pre))
        \<and> \<not> has_digit_underscore decimal pre \<longrightarrow>
        extract_number decimal f1 = int_of_digits decimal ds)
   \<and> (\<not> has_digit_underscore decimal (basename f2)
        \<and> takeWhile (isdigit decimal) (basename f2) \<noteq> [] \<longrightarrow>
        extract_number decimal f2
          = int_of_digits decimal (takeWhile (isdigit decimal) (basename f2)))
   \<and> (\<not> has_digit_underscore decimal (basename f3)
        \<and> takeWhile (isdigit decimal) (basename f3) = [] \<longrightarrow>
        extract_number decimal f3 = 999999)
   \<and> ((\<forall>d<10. decimal (48 + d) = Some d) \<and> decimal (ch (CHR ''_'')) = None
        \<and> 0 \<le> r \<and> ch (CHR ''/'') \<notin> set b \<longrightarrow>
        extract_number decimal (join pdfs_directory_path (fmt04d r @ lit ''_'' @ b)) = r)
   \<and> pdf_files_sorted decimal listing
        = filter (\<lambda>x. extract_number decimal x < 999999) (pdf_files_sorted decimal listing)
          @ filter (\<lambda>x. \<not> extract_number decimal x < 999999) (pdf_files_sorted decimal listing)
   \<and> (decimal (ch (CHR ''_'')) = None \<longrightarrow>
        (search_digits_underscore decimal s \<noteq> None) = has_digit_underscore decimal s)
   \<and> (pdf_files listing \<noteq> []
        \<and> (\<forall>x\<in>set (pdf_files listing).
              search_digits_underscore decimal (basename x) \<noteq> None) \<longrightarrow>
        combine_order decimal listing = MergeOrder (pdf_files_sorted decimal listing))"
proof (intro conjI impI)
  show srt: "sorted (map (extract_number decimal) (pdf_files_sorted decimal listing))"
    by (simp add: pdf_files_sorted_def)
  show "mset (pdf_files_sorted decimal listing) = mset (pdf_files listing)"
    by (simp add: pdf_files_sorted_def)
  show "filter (\<lambda>x. extract_number decimal x = k) (pdf_files_sorted decimal listing)
        = filter (\<lambda>x. extract_number decimal x = k) (pdf_files listing)"
    unfolding pdf_files_sorted_def by (rule sort_key_stable)
  show "pdf_files_sorted decimal listing
        = filter (\<lambda>x. extract_number decimal x < 999999) (pdf_files_sorted decimal listing)
          @ filter (\<lambda>x. \<not> extract_number decimal x < 999999) (pdf_files_sorted decimal listing)"
    using srt by (rule sorted_split)
next
  assume h: "mset listing' = mset listing
        \<and> inj_on (extract_number decimal) (set (pdf_files listing))"
  hence "mset (pdf_files listing) = mset (pdf_files listing')"
    by (simp add: pdf_files_def)
  thus "pdf_files_sorted decimal listing' = pdf_files_sorted decimal listing"
    using sort_key_listing_order
      [of "pdf_files listing" "pdf_files listing'" "extract_number decimal"] h
    by (simp add: pdf_files_sorted_def)
next
  assume h: "decimal (ch (CHR ''_'')) = None
        \<and> basename f1 = pre @ ds @ ch (CHR ''_'') # post
        \<and> ds \<noteq> [] \<and> (\<forall>c\<in>set ds. isdigit decimal c)
        \<and> (pre = [] \<or> \<not> isdigit decimal (last pre))
        \<and> \<not> has_digit_underscore decimal pre"
  hence "\<not> isdigit decimal (ch (CHR ''_''))" by (simp add: isdigit_def)
  hence "search_digits_underscore decimal (pre @ ds @ ch (CHR ''_'') # post) = Some ds"
    using h by (intro search_first_group) simp_all
  thus "extract_number decimal f1 = int_of_digits decimal ds"
    using h by (simp add: extract_number_def)
next
  assume h: "\<not> has_digit_underscore decimal (basename f2)
        \<and> takeWhile (isdigit decimal) (basename f2) \<noteq> []"
  hence "search_digits_underscore decimal (basename f2) = None"
    by (simp add: search_None)
  thus "extract_number decimal f2
          = int_of_digits decimal (takeWhile (isdigit decimal) (basename f2))"
    using h by (simp add: extract_number_def match_leading_digits_def)
next
  assume h: "\<not> has_digit_underscore decimal (basename f3)
        \<and> takeWhile (isdigit decimal) (basename f3) = []"
  hence "search_digits_underscore decimal (basename f3) = None"
    by (simp add: search_None)
  thus "extract_number decimal f3 = 999999"
    using h by (simp add: extract_number_def match_leading_digits_def)
next
  assume h: "(\<forall>d<10. decimal (48 + d) = Some d) \<and> decimal (ch (CHR ''_'')) = None
        \<and> 0 \<le> r \<and> ch (CHR ''/'') \<notin> set b"
  have tab: "\<forall>d<10. decimal (48 + d) = Some d" using h by blast
  have us: "\<not> isdigit decimal (ch (CHR ''_''))" using h by (simp add: isdigit_def)
  have ad: "\<forall>c\<in>set (fmt04d r). ascii_digit c" using h fmt04d_digits by blast
  hence dg: "\<forall>c\<in>set (fmt04d r). isdigit decimal c"
    using ascii_digits_are_digits [OF tab] by blast
  have "ch (CHR ''/'') \<notin> set (fmt04d r @ lit ''_'' @ b)"
    using h ad ascii_digit_not_slash by auto
  hence base: "basename (fmt04d r @ lit ''_'' @ b) = fmt04d r @ lit ''_'' @ b"
    by (rule basename_no_slash)
  hence b1: "basename (join pdfs_directory_path (fmt04d r @ lit ''_'' @ b))
               = fmt04d r @ lit ''_'' @ b"
    by (simp only: basename_join)
  have "search_digits_underscore decimal ([] @ fmt04d r @ ch (CHR ''_'') # b) = Some (fmt04d r)"
    using us fmt04d_nonempty dg by (intro search_first_group) simp_all
  hence s1: "search_digits_underscore decimal (fmt04d r @ lit ''_'' @ b) = Some (fmt04d r)"
    by simp
  have "extract_number decimal (join pdfs_directory_path (fmt04d r @ lit ''_'' @ b))
          = int_of_digits decimal (fmt04d r)"
    unfolding extract_number_def b1 s1 by simp
  also have "\<dots> = ascii_number (fmt04d r)"
    by (rule int_of_ascii_digits [OF tab ad])
  also have "\<dots> = r"
    using h by (simp add: ascii_number_fmt04d)
  finally show "extract_number decimal (join pdfs_directory_path (fmt04d r @ lit ''_'' @ b)) = r" .
next
  assume "decimal (ch (CHR ''_'')) = None"
  hence us: "\<not> isdigit decimal (ch (CHR ''_''))" by (simp add: isdigit_def)
  show "(search_digits_underscore decimal s \<noteq> None) = has_digit_underscore decimal s"
  proof
    assume "search_digits_underscore decimal s \<noteq> None"
    thus "has_digit_underscore decimal s"
      by (rule contrapos_np) (rule search_None)
  next
    assume "has_digit_underscore decimal s"
    thus "search_digits_underscore decimal s \<noteq> None"
      by (rule has_digit_underscore_search [OF us])
  qed
next
  assume h: "pdf_files listing \<noteq> []
        \<and> (\<forall>x\<in>set (pdf_files listing).
              search_digits_underscore decimal (basename x) \<noteq> None)"
  hence "keyed decimal (pdf_files listing)
           = Inr (map (\<lambda>x. (extract_number decimal x, x)) (pdf_files listing))"
    by (intro keyed_all) simp
  thus "combine_order decimal listing = MergeOrder (pdf_files_sorted decimal listing)"
    using h by (simp add: combine_order_def pdf_files_sorted_def sort_key_decorated)
qed

theorem merge_order_by_extracted_number_witness:
  "pdf_files_sorted (\<lambda>c. if 48 \<le> c \<and> c \<le> 57 then Some (c - 48) else None)
      [lit ''0010_z.pdf'', lit ''0001_y.pdf'', lit ''0002_x.pdf'']
     = pdf_files_sorted (\<lambda>c. if 48 \<le> c \<and> c \<le> 57 then Some (c - 48) else None)
      [lit ''0002_x.pdf'', lit ''0001_y.pdf'', lit ''0010_z.pdf'']
   \<and> combine_order (\<lambda>c. if 48 \<le> c \<and> c \<le> 57 then Some (c - 48) else None)
      [lit ''0002_x.pdf'', lit ''0001_y.pdf'', lit ''0010_z.pdf'']
     = MergeOrder (pdf_files_sorted (\<lambda>c. if 48 \<le> c \<and> c \<le> 57 then Some (c - 48) else None)
      [lit ''0002_x.pdf'', lit ''0001_y.pdf'', lit ''0010_z.pdf''])
   \<and> extract_number (\<lambda>c. if 48 \<le> c \<and> c \<le> 57 then Some (c - 48) else None)
        (lit ''pdfs/ab12c34_x.pdf'') = 34
   \<and> extract_number (\<lambda>c. if 48 \<le> c \<and> c \<le> 57 then Some (c - 48) else None)
        (lit ''pdfs/7.pdf'') = 7
   \<and> extract_number (\<lambda>c. if 48 \<le> c \<and> c \<le> 57 then Some (c - 48) else None)
        (lit ''pdfs/cover.pdf'') = 999999
   \<and> extract_number (\<lambda>c. if 48 \<le> c \<and> c \<le> 57 then Some (c - 48) else None)
        (lit ''pdfs/0002_x.pdf'') = 2
   \<and> search_digits_underscore (\<lambda>c. if 48 \<le> c \<and> c \<le> 57 then Some (c - 48) else None)
        (lit ''a1_b'') \<noteq> None"
proof -
  let ?D = "(\<lambda>c. if 48 \<le> c \<and> c \<le> 57 then Some (c - 48) else None) :: codepoint \<Rightarrow> nat option"
  let ?l = "[lit ''0002_x.pdf'', lit ''0001_y.pdf'', lit ''0010_z.pdf'']"
  let ?l' = "[lit ''0010_z.pdf'', lit ''0001_y.pdf'', lit ''0002_x.pdf'']"
  note inst = merge_order_by_extracted_number
    [of ?D ?l 0 ?l' "lit ''pdfs/ab12c34_x.pdf''" "lit ''ab12c''" "lit ''34''" "lit ''x.pdf''"
        "lit ''pdfs/7.pdf''" "lit ''pdfs/cover.pdf''" 2 "lit ''x.pdf''" "lit ''a1_b''"]
  have files: "pdf_files ?l
      = [lit ''pdfs/0002_x.pdf'', lit ''pdfs/0001_y.pdf'', lit ''pdfs/0010_z.pdf'']"
    by (simp add: pdf_files_def endswith_def join_def pdfs_directory_path_def)
  have n1: "extract_number ?D (lit ''pdfs/0002_x.pdf'') = 2"
    and n2: "extract_number ?D (lit ''pdfs/0001_y.pdf'') = 1"
    and n3: "extract_number ?D (lit ''pdfs/0010_z.pdf'') = 10"
    by (simp_all add: extract_number_def basename_def match_digits_underscore_def isdigit_def
        int_of_digits_def)
  have "mset ?l' = mset ?l" by simp
  moreover have "inj_on (extract_number ?D) (set (pdf_files ?l))"
    using n1 n2 n3 by (simp add: files [simplified])
  ultimately have w1: "pdf_files_sorted ?D ?l' = pdf_files_sorted ?D ?l"
    using inst by blast
  have "pdf_files ?l \<noteq> []" by (simp add: files [simplified])
  moreover have "\<forall>x\<in>set (pdf_files ?l). search_digits_underscore ?D (basename x) \<noteq> None"
    by (simp add: files [simplified] basename_def match_digits_underscore_def isdigit_def)
  ultimately have w2: "combine_order ?D ?l = MergeOrder (pdf_files_sorted ?D ?l)"
    using inst by blast
  have "?D (ch (CHR ''_'')) = None
        \<and> basename (lit ''pdfs/ab12c34_x.pdf'') = lit ''ab12c'' @ lit ''34'' @ ch (CHR ''_'') # lit ''x.pdf''
        \<and> lit ''34'' \<noteq> [] \<and> (\<forall>c\<in>set (lit ''34''). isdigit ?D c)
        \<and> (lit ''ab12c'' = [] \<or> \<not> isdigit ?D (last (lit ''ab12c'')))
        \<and> \<not> has_digit_underscore ?D (lit ''ab12c'')"
    by (simp add: basename_def isdigit_def)
  hence "extract_number ?D (lit ''pdfs/ab12c34_x.pdf'') = int_of_digits ?D (lit ''34'')"
    using inst by blast
  hence w3: "extract_number ?D (lit ''pdfs/ab12c34_x.pdf'') = 34"
    by (simp add: int_of_digits_def)
  have "\<not> has_digit_underscore ?D (basename (lit ''pdfs/7.pdf''))
        \<and> takeWhile (isdigit ?D) (basename (lit ''pdfs/7.pdf'')) \<noteq> []"
    by (simp add: basename_def isdigit_def)
  hence "extract_number ?D (lit ''pdfs/7.pdf'')
          = int_of_digits ?D (takeWhile (isdigit ?D) (basename (lit ''pdfs/7.pdf'')))"
    using inst by blast
  hence w4: "extract_number ?D (lit ''pdfs/7.pdf'') = 7"
    by (simp add: int_of_digits_def basename_def isdigit_def)
  have "\<not> has_digit_underscore ?D (basename (lit ''pdfs/cover.pdf''))
        \<and> takeWhile (isdigit ?D) (basename (lit ''pdfs/cover.pdf'')) = []"
    by (simp add: basename_def isdigit_def)
  hence w5: "extract_number ?D (lit ''pdfs/cover.pdf'') = 999999"
    using inst by blast
  have "(\<forall>d<10. ?D (48 + d) = Some d) \<and> ?D (ch (CHR ''_'')) = None
        \<and> (0::int) \<le> 2 \<and> ch (CHR ''/'') \<notin> set (lit ''x.pdf'')"
    by simp
  hence "extract_number ?D (join pdfs_directory_path (fmt04d 2 @ lit ''_'' @ lit ''x.pdf'')) = 2"
    using inst by blast
  hence w6: "extract_number ?D (lit ''pdfs/0002_x.pdf'') = 2"
    by (simp add: fmt04d_2 join_def pdfs_directory_path_def)
  have "?D (ch (CHR ''_'')) = None" by simp
  hence "(search_digits_underscore ?D (lit ''a1_b'') \<noteq> None)
          = has_digit_underscore ?D (lit ''a1_b'')"
    using inst by blast
  hence w7: "search_digits_underscore ?D (lit ''a1_b'') \<noteq> None"
    by (simp add: isdigit_def)
  show ?thesis
    using w1 w2 w3 w4 w5 w6 w7 by (intro conjI)
qed

text \<open>
  The claim as it is worded fails on three kinds of names, whatever a table with the
  ASCII digits says about other characters: \<open>7.pdf\<close> has no digit group before an
  underscore, yet its number is 7 and it sorts first, not last; the group of
  \<open>x5_a.pdf\<close> is not leading, yet its number is 5; and \<open>cover.pdf\<close>, with the sentinel
  999999, sorts before \<open>1000000_a.pdf\<close>. On the first listing and on the empty listing
  \<open>combine_pdfs\<close> merges nothing.
\<close>

lemma merge_examples:
  assumes "\<forall>c<128. decimal c = (if 48 \<le> c \<and> c \<le> 57 then Some (c - 48) else None)"
  shows "extract_number decimal (lit ''pdfs/7.pdf'') = 7"
    and "pdf_files_sorted decimal [lit ''0008_a.pdf'', lit ''7.pdf'']
           = [lit ''pdfs/7.pdf'', lit ''pdfs/0008_a.pdf'']"
    and "extract_number decimal (lit ''pdfs/x5_a.pdf'') = 5"
    and "pdf_files_sorted decimal [lit ''cover.pdf'', lit ''1000000_a.pdf'']
           = [lit ''pdfs/cover.pdf'', lit ''pdfs/1000000_a.pdf'']"
    and "combine_order decimal [lit ''0008_a.pdf'', lit ''7.pdf''] = Raised AttributeError"
    and "combine_order decimal [] = NoPdfFiles"
  using assms
  by (simp_all add: pdf_files_sorted_def pdf_files_def endswith_def join_def
      pdfs_directory_path_def extract_number_def basename_def match_digits_underscore_def
      match_leading_digits_def isdigit_def int_of_digits_def combine_order_def
      numeric_prefix_def)

theorem merge_sentinel_counterexample:
  "extract_number (\<lambda>c. if 48 \<le> c \<and> c \<le> 57 then Some (c - 48) else None)
      (lit ''pdfs/7.pdf'') = 7
   \<and> pdf_files_sorted (\<lambda>c. if 48 \<le> c \<and> c \<le> 57 then Some (c - 48) else None)
      [lit ''0008_a.pdf'', lit ''7.pdf'']
     = [lit ''pdfs/7.pdf'', lit ''pdfs/0008_a.pdf'']
   \<and> extract_number (\<lambda>c. if 48 \<le> c \<and> c \<le> 57 then Some (c - 48) else None)
      (lit ''pdfs/x5_a.pdf'') = 5
   \<and> pdf_files_sorted (\<lambda>c. if 48 \<le> c \<and> c \<le> 57 then Some (c - 48) else None)
      [lit ''cover.pdf'', lit ''1000000_a.pdf'']
     = [lit ''pdfs/cover.pdf'', lit ''pdfs/1000000_a.pdf'']
   \<and> combine_order (\<lambda>c. if 48 \<le> c \<and> c \<le> 57 then Some (c - 48) else None)
      [lit ''0008_a.pdf'', lit ''7.pdf''] = Raised AttributeError
   \<and> combine_order (\<lambda>c. if 48 \<le> c \<and> c \<le> 57 then Some (c - 48) else None) []
     = NoPdfFiles"
proof -
  have "\<forall>c<128. (\<lambda>c. if 48 \<le> c \<and> c \<le> 57 then Some (c - 48) else None) c
          = (if 48 \<le> c \<and> c \<le> 57 then Some (c - 48) else None)"
    by simp
  from merge_examples [OF this] show ?thesis by (intro conjI)
qed

end
